theory Spec2Isabelle
  imports Complex_Main
begin

section \<open>Common conventions\<close>

text \<open>
  The programs are browser scripts. Three conventions hold throughout.
  \<^item> A DOM element that a script looks up once (\<^verbatim>\<open>querySelector\<close>,
    \<^verbatim>\<open>getElementById\<close>) is a field of type \<open>'a option\<close>: \<open>None\<close> when the page
    has no such element, \<open>Some v\<close> when it has, \<open>v\<close> being the properties the script
    writes. A guarded write \<^verbatim>\<open>if (el) el.p = v\<close> is \<open>map_option\<close>.
  \<^item> User-visible captions are Arabic string literals in the source. They are constructors
    of a caption datatype here, one per literal or template.
  \<^item> JavaScript numbers are rationals (\<open>rat\<close>) or integers; \<open>NaN\<close> is \<open>None\<close> of an
    \<open>option\<close>. \<^verbatim>\<open>x.toFixed(2)\<close> is the number it prints, \<open>toFixed2 x\<close>.
\<close>

definition toFixed2 :: "rat \<Rightarrow> rat" where
  "toFixed2 x = (if x < 0 then - (of_int \<lfloor>(- x) * 100 + 1 / 2\<rfloor> / 100)
                 else of_int \<lfloor>x * 100 + 1 / 2\<rfloor> / 100)"

text \<open>
  \<^verbatim>\<open>s || fallback\<close> on a string: \<open>truthy s\<close> is \<open>None\<close> where the fallback caption is
  taken (the empty string is falsy).
\<close>

definition truthy :: "string \<Rightarrow> string option" where
  "truthy s = (if s = [] then None else Some s)"

section \<open>news\_search.js: the news-search job poller\<close>

text \<open>
  A timestamp field of the job (\<^verbatim>\<open>started_at\<close>, \<^verbatim>\<open>eta\<close>) is an ISO string the script
  hands to \<^verbatim>\<open>Date.parse\<close>. The field is modelled by what the script can observe of it:
  \<open>Absent\<close> is a falsy field (missing, null or the empty string), \<open>Unparsable\<close> a
  non-empty string for which \<^verbatim>\<open>Date.parse\<close> gives NaN, and \<open>At t\<close> a string that parses
  to \<open>t\<close> milliseconds.
\<close>

datatype timestamp = Absent | Unparsable | At rat

record hit_view =
  display_full :: string
  duration_label :: string
  details :: string

record job_result =
  has_hit :: bool
  message :: string
  hit_display :: "hit_view option"

record job =
  status :: string
  started_at :: timestamp
  eta :: timestamp
  duration_sec :: rat
  result :: "job_result option"

datatype pill_label = Pill_idle | Pill_running | Pill_breaking_news | Pill_analysis_done

datatype btn_label = Btn_run_search | Btn_ai_working | Btn_new_task

datatype remaining_text = Rem_finalizing | Rem_min_sec int int | Rem_sec int

datatype timer_text =
    Timer_empty | Timer_done | Timer_starting | Timer_remaining remaining_text

datatype preview_text = Preview_placeholder | Preview_hit string "string option"

datatype title_text = Title_hit | Title_no_hit

datatype body_text = Body_empty | Body_no_details | Body_message string

datatype meta_text = Meta_empty | Meta_hit "string option" "string option" "string option"

datatype clear_label = Clear_original | Clear_deleting | Clear_deleted | Clear_failed

record button =
  disabled :: bool
  label :: btn_label

record clear_button =
  clear_disabled :: bool
  clear_hidden :: bool
  clear_label :: clear_label

text \<open>
  The module state: the closure variables \<^verbatim>\<open>job\<close>, \<^verbatim>\<open>tickTimer\<close> (is the 1 s interval
  running) and \<^verbatim>\<open>pollTimer\<close> (the delay of the pending status poll, if any), and the
  elements found under \<^verbatim>\<open>#news-search-module\<close> with the properties the script writes:
  \<^verbatim>\<open>hidden\<close> for the wrappers, \<^verbatim>\<open>style.width\<close> in percent for the fill.
\<close>

record news =
  job :: "job option"
  tickTimer :: bool
  pollTimer :: "nat option"
  btn :: "button option"
  progressWrap :: "bool option"
  progressFill :: "rat option"
  timerEl :: "timer_text option"
  resultBox :: "bool option"
  resultTitle :: "title_text option"
  resultBody :: "body_text option"
  hitMeta :: "meta_text option"
  preview :: "preview_text option"
  statusPill :: "(string \<times> pill_label) option"
  clearBtn :: "clear_button option"

definition setStatus :: "string \<Rightarrow> pill_label \<Rightarrow> news \<Rightarrow> news" where
  "setStatus state lbl s = s\<lparr>statusPill := map_option (\<lambda>_. (state, lbl)) (statusPill s)\<rparr>"

definition updatePreview :: "hit_view option \<Rightarrow> bool \<Rightarrow> news \<Rightarrow> news" where
  "updatePreview hitView shw s =
     s\<lparr>preview := map_option (\<lambda>_.
        (case hitView of
           Some h \<Rightarrow>
             if shw \<and> display_full h \<noteq> []
             then Preview_hit (display_full h) (truthy (duration_label h))
             else Preview_placeholder
         | None \<Rightarrow> Preview_placeholder)) (preview s)\<rparr>"

definition resetUI :: "news \<Rightarrow> news" where
  "resetUI s =
     (let s1 = setStatus ''idle'' Pill_idle s in
      s1\<lparr>progressWrap := map_option (\<lambda>_. True) (progressWrap s1),
         timerEl := map_option (\<lambda>_. Timer_empty) (timerEl s1),
         progressFill := map_option (\<lambda>_. 0) (progressFill s1),
         resultBox := map_option (\<lambda>_. True) (resultBox s1),
         btn := map_option (\<lambda>_. \<lparr>disabled = False, label = Btn_run_search\<rparr>) (btn s1)\<rparr>)"

definition formatRemaining :: "int \<Rightarrow> remaining_text" where
  "formatRemaining totalSeconds =
     (if totalSeconds \<le> 0 then Rem_finalizing
      else let minutes = totalSeconds div 60; seconds = totalSeconds mod 60
           in if minutes > 0 then Rem_min_sec minutes seconds else Rem_sec seconds)"

definition scheduleStatusFetch :: "nat \<Rightarrow> news \<Rightarrow> news" where
  "scheduleStatusFetch delayMs s =
     s\<lparr>pollTimer := Some (if delayMs = 0 then 30000 else delayMs)\<rparr>"

text \<open>\<^verbatim>\<open>Date.parse(job.started_at || '')\<close>: a number, or NaN (\<open>None\<close>).\<close>

definition parse_started :: "job \<Rightarrow> rat option" where
  "parse_started j = (case started_at j of At t \<Rightarrow> Some t | _ \<Rightarrow> None)"

text \<open>
  \<^verbatim>\<open>job.eta ? Date.parse(job.eta) : (started + (job.duration_sec || 0) * 1000)\<close>; a sum
  with NaN is NaN.
\<close>

definition parse_eta :: "job \<Rightarrow> rat option" where
  "parse_eta j =
     (case eta j of
        At t \<Rightarrow> Some t
      | Unparsable \<Rightarrow> None
      | Absent \<Rightarrow> map_option (\<lambda>started. started + duration_sec j * 1000) (parse_started j))"

definition progress_fraction :: "rat \<Rightarrow> rat \<Rightarrow> rat \<Rightarrow> rat" where
  "progress_fraction now started eta_ms =
     min (99 / 100) (max 0 ((now - started) / (eta_ms - started)))"

definition updateProgressUI :: "rat \<Rightarrow> news \<Rightarrow> news" where
  "updateProgressUI now s =
     (case job s of
        None \<Rightarrow> s
      | Some j \<Rightarrow>
          if status j \<noteq> ''in_progress'' then s
          else (case (parse_started j, parse_eta j) of
                  (Some started, Some eta_ms) \<Rightarrow>
                    if eta_ms > started then
                      let progress = progress_fraction now started eta_ms;
                          s1 = s\<lparr>progressFill :=
                                  map_option (\<lambda>_. toFixed2 (progress * 100)) (progressFill s)\<rparr>;
                          remainingMs = max 0 (eta_ms - now);
                          remainingSec = \<lceil>remainingMs / 1000\<rceil>;
                          s2 = s1\<lparr>timerEl :=
                                  map_option (\<lambda>_. Timer_remaining (formatRemaining remainingSec))
                                    (timerEl s1)\<rparr>
                      in if remainingSec \<le> 1 then scheduleStatusFetch 1500 s2 else s2
                    else s
                | _ \<Rightarrow> s))"

definition showResult :: "job_result option \<Rightarrow> news \<Rightarrow> news" where
  "showResult res s =
     (case resultBox s of
        None \<Rightarrow> s
      | Some _ \<Rightarrow>
          let hasHit = (case res of Some r \<Rightarrow> has_hit r | None \<Rightarrow> False);
              hit = (case res of Some r \<Rightarrow> if has_hit r then hit_display r else None
                     | None \<Rightarrow> None);
              s1 = s\<lparr>resultBox := Some False,
                     resultTitle :=
                       map_option (\<lambda>_. if hasHit then Title_hit else Title_no_hit) (resultTitle s),
                     resultBody :=
                       map_option (\<lambda>_. case res of
                           None \<Rightarrow> Body_empty
                         | Some r \<Rightarrow> if message r \<noteq> [] then Body_message (message r)
                                     else Body_no_details) (resultBody s),
                     hitMeta :=
                       map_option (\<lambda>_. case hit of
                           None \<Rightarrow> Meta_empty
                         | Some h \<Rightarrow>
                             Meta_hit (truthy (display_full h)) (truthy (duration_label h))
                               (truthy (details h)))
                         (hitMeta s)\<rparr>;
              s2 = (case hit of Some h \<Rightarrow> updatePreview (Some h) True s1
                    | None \<Rightarrow> updatePreview None False s1)
          in s2\<lparr>clearBtn :=
                  map_option (\<lambda>_. \<lparr>clear_disabled = False, clear_hidden = False,
                                     clear_label = Clear_original\<rparr>) (clearBtn s2)\<rparr>)"

definition renderJob :: "rat \<Rightarrow> job option \<Rightarrow> news \<Rightarrow> news" where
  "renderJob now newJob s0 =
     (let s = s0\<lparr>job := newJob, tickTimer := False\<rparr> in
      case newJob of
        None \<Rightarrow> resetUI s
      | Some j \<Rightarrow>
          if status j = ''in_progress'' then
            let s1 = s\<lparr>btn := map_option (\<lambda>_. \<lparr>disabled = True, label = Btn_ai_working\<rparr>) (btn s),
                       progressWrap := map_option (\<lambda>_. False) (progressWrap s),
                       resultBox := map_option (\<lambda>_. True) (resultBox s)\<rparr>;
                s2 = setStatus ''running'' Pill_running s1;
                s3 = updateProgressUI now s2;
                s4 = s3\<lparr>tickTimer := True\<rparr>
            in scheduleStatusFetch 30000 s4
          else if status j = ''completed'' then
            let hit = (case result j of Some r \<Rightarrow> has_hit r | None \<Rightarrow> False);
                s1 = setStatus ''done'' (if hit then Pill_breaking_news else Pill_analysis_done) s;
                s2 = s1\<lparr>btn := map_option (\<lambda>_. \<lparr>disabled = False, label = Btn_new_task\<rparr>) (btn s1),
                        progressWrap := map_option (\<lambda>_. False) (progressWrap s1),
                        progressFill := map_option (\<lambda>_. 100) (progressFill s1),
                        timerEl := map_option (\<lambda>_. Timer_done) (timerEl s1)\<rparr>;
                s3 = showResult (result j) s2
            in if hit then s3 else updatePreview None False s3
          else resetUI s)"

section \<open>user\_dashboard.js: the shared view-model\<close>

text \<open>
  The JSON bodies the scripts read. One record holds every field the scripts consume from
  a response; a field the body lacks is \<open>None\<close> (or the value the script's
  \<^verbatim>\<open>|| 0\<close> puts in its place). A body that is JSON but no object reads as a payload
  with \<open>ok = False\<close> and no field.
\<close>

record wallet =
  available_balance :: rat
  total_earned :: rat

record counts =
  counts_discovered :: int
  counts_resolved :: int

record port =
  port_id :: string
  port_number :: int
  reward :: rat

record withdrawal_item =
  amount :: rat
  created_display :: string
  status_label :: string
  status_class :: string

record withdraw_summary =
  pending_total :: rat
  pending_count :: int
  recent :: "withdrawal_item list"

record payload =
  ok :: bool
  error :: string
  seconds_remaining :: "int option"
  remaining :: "int option"
  changed :: int
  discovered :: "port list option"
  resolved :: "port list option"
  archived :: "port list option"
  counts :: "counts option"
  wallet :: "wallet option"
  withdrawals :: "withdraw_summary option"

text \<open>The object \<^verbatim>\<open>{ok: false}\<close>: no field but a false \<open>ok\<close>.\<close>

definition empty_payload :: payload where
  "empty_payload =
     \<lparr>ok = False, error = [], seconds_remaining = None, remaining = None, changed = 0,
      discovered = None, resolved = None, archived = None, counts = None, wallet = None,
      withdrawals = None\<rparr>"

text \<open>
  What \<^verbatim>\<open>fetch\<close> settles with: a rejection (network failure), or a response with its
  HTTP status and its body as \<^verbatim>\<open>r.json()\<close> reads it (\<open>None\<close> when the body is not
  JSON, so that \<^verbatim>\<open>r.json()\<close> rejects). \<^verbatim>\<open>r.ok\<close> is a status from 200 to 299.
\<close>

datatype response = Rejected | Http nat "payload option"

definition http_ok :: "nat \<Rightarrow> bool" where
  "http_ok st = (200 \<le> st \<and> st \<le> 299)"

datatype row_kind = Discovered | Resolved | Archived

datatype table = Table_from_server | Table_empty_notice | Table_rows "(row_kind \<times> port) list"

text \<open>
  The elements the view-model writes: the header line with the two counts, the two wallet
  figures and the table body. A figure is the number its text shows.
\<close>

record dashboard =
  hdr_counts :: "(int \<times> int) option option"
  el_available_balance :: "rat option"
  el_total_earned :: "rat option"
  ports_body :: "table option"

definition formatReward :: "rat \<Rightarrow> rat" where
  "formatReward v = toFixed2 v"

definition updateHeaderCounts :: "int \<Rightarrow> int \<Rightarrow> dashboard \<Rightarrow> dashboard" where
  "updateHeaderCounts d r db =
     db\<lparr>hdr_counts := map_option (\<lambda>_. Some (d, r)) (hdr_counts db)\<rparr>"

definition updateWallet :: "wallet \<Rightarrow> dashboard \<Rightarrow> dashboard" where
  "updateWallet w db =
     db\<lparr>el_available_balance :=
          map_option (\<lambda>_. formatReward (available_balance w)) (el_available_balance db),
        el_total_earned :=
          map_option (\<lambda>_. formatReward (total_earned w)) (el_total_earned db)\<rparr>"

definition updateCountsWallet :: "payload \<Rightarrow> dashboard \<Rightarrow> dashboard" where
  "updateCountsWallet p db =
     (let db1 = (case counts p of
                   Some c \<Rightarrow> updateHeaderCounts (counts_discovered c) (counts_resolved c) db
                 | None \<Rightarrow> db)
      in case wallet p of Some w \<Rightarrow> updateWallet w db1 | None \<Rightarrow> db1)"

definition renderAll ::
  "port list option \<Rightarrow> port list option \<Rightarrow> port list option \<Rightarrow> dashboard \<Rightarrow> dashboard" where
  "renderAll d r a db =
     (case ports_body db of
        None \<Rightarrow> db
      | Some _ \<Rightarrow>
          let ds = (case d of Some x \<Rightarrow> x | None \<Rightarrow> []);
              rs = (case r of Some x \<Rightarrow> x | None \<Rightarrow> []);
              as = (case a of Some x \<Rightarrow> x | None \<Rightarrow> [])
          in if ds = [] \<and> rs = [] \<and> as = []
             then db\<lparr>ports_body := Some Table_empty_notice\<rparr>
             else db\<lparr>ports_body :=
                       Some (Table_rows (map (Pair Discovered) ds @ map (Pair Resolved) rs @
                                         map (Pair Archived) as))\<rparr>)"

text \<open>
  \<^verbatim>\<open>H.idempotencyKey()\<close> is not a function of its arguments: it returns
  \<^verbatim>\<open>crypto.randomUUID()\<close> where the browser has it, and otherwise the clock's reading
  followed by the hexadecimal digits of a random number. The browser is a record of what
  each of these gives at the \<open>n\<close>-th invocation of the generator.
\<close>

record keysrc =
  has_randomUUID :: bool
  randomUUID :: "nat \<Rightarrow> string"
  date_now_string :: "nat \<Rightarrow> string"
  random_hex :: "nat \<Rightarrow> string"

definition idempotencyKey :: "keysrc \<Rightarrow> nat \<Rightarrow> string" where
  "idempotencyKey g n =
     (if has_randomUUID g then randomUUID g n else date_now_string g n @ random_hex g n)"

subsection \<open>The withdrawal form\<close>















section \<open>scan\_animation.js: the scan overlay\<close>

text \<open>
  The repository holds two versions of the script. They differ in constants and in how the
  bar is drawn, not in the flow:
  \<^item> \<open>Long_eased\<close>: 12 to 20 seconds, an eased bar, stage captions at fifths of the
    duration, the bar snapped to 100\% at the end, the overlay closed after 900 ms;
  \<^item> \<open>Short_linear\<close>: 4 to 9 seconds, a linear bar, a stage caption every 800 ms, the
    overlay closed after 600 ms.
\<close>

datatype variant = Long_eased | Short_linear

definition base_ms :: "variant \<Rightarrow> rat" where
  "base_ms v = (case v of Long_eased \<Rightarrow> 12000 | Short_linear \<Rightarrow> 4000)"

definition spread_ms :: "variant \<Rightarrow> rat" where
  "spread_ms v = (case v of Long_eased \<Rightarrow> 8000 | Short_linear \<Rightarrow> 5000)"

text \<open>
  \<open>Stage k\<close> is the caption \<^verbatim>\<open>steps[k]\<close>; the caption \<^verbatim>\<open>doScan\<close> writes first is the
  text of \<^verbatim>\<open>steps[0]\<close>. \<open>Found n\<close>, \<open>Nothing_found\<close> and \<open>Scan_failed\<close> are the three
  final captions.
\<close>

datatype scan_text = Stage nat | Found int | Nothing_found | Scan_failed

text \<open>
  The bar's width: a percentage, or for the eased bar the percentage \<open>pct\<close> it is computed
  from (the source writes \<^verbatim>\<open>Math.pow(pct / 100, 0.8) * 100\<close> with one decimal).
\<close>

datatype bar_width = Percent rat | Eased int

record bar =
  bar_width :: bar_width
  ease_out :: bool

text \<open>
  The animation of one invocation is \<open>Running\<close> while a frame callback is requested;
  \<open>Elapsed t\<close> once the frame at time \<open>t\<close> found the duration over and registered the
  \<^verbatim>\<open>finally\<close> callback on the request instead of requesting another frame.
\<close>

datatype animation = Running | Elapsed rat

text \<open>
  The closure of one invocation of \<^verbatim>\<open>doScan\<close>: its constants \<^verbatim>\<open>start\<close> and
  \<^verbatim>\<open>totalMs\<close>, its variables \<^verbatim>\<open>payload\<close> (null, \<open>None\<close>, until the request settles)
  and \<^verbatim>\<open>stepIdx\<close>, and what it still waits for: the animation, the request \<^verbatim>\<open>req\<close>, and
  the timeout that closes the overlay (pending once the \<^verbatim>\<open>finally\<close> callback has run).
\<close>

record scan_run =
  start :: rat
  totalMs :: rat
  payload_var :: "payload option"
  stepIdx :: nat
  anim :: animation
  req_settled :: bool
  close_pending :: bool

text \<open>
  The page: the flag \<^verbatim>\<open>VM.state.scanInFlight\<close>, the elements of \<^verbatim>\<open>VM.ui\<close>
  (\<^verbatim>\<open>style.display\<close> of the overlay, \<^verbatim>\<open>disabled\<close> of the button), the shared header
  elements, the number of scan requests issued so far, and the closures of the invocations
  that still wait for something, each under a number of its own.
\<close>

record scan_page =
  scanInFlight :: bool
  overlay :: "string option"
  scanBtn :: "bool option"
  scanBar :: "bar option"
  scanStatus :: "scan_text option"
  s_dash :: dashboard
  scan_requests :: nat
  runs :: "nat \<Rightarrow> scan_run option"
  next_run :: nat

definition js_round :: "rat \<Rightarrow> int" where
  "js_round x = \<lfloor>x + 1 / 2\<rfloor>"

definition doScan :: "variant \<Rightarrow> rat \<Rightarrow> rat \<Rightarrow> scan_page \<Rightarrow> scan_page" where
  "doScan v random now s =
     (if scanInFlight s then s
      else s\<lparr>scanInFlight := True,
             overlay := map_option (\<lambda>_. ''flex'') (overlay s),
             scanBtn := map_option (\<lambda>_. True) (scanBtn s),
             scanBar := map_option (\<lambda>b. b\<lparr>bar_width := Percent 0\<rparr>) (scanBar s),
             scanStatus := map_option (\<lambda>_. Stage 0) (scanStatus s),
             scan_requests := Suc (scan_requests s),
             runs := (runs s)(next_run s \<mapsto>
               \<lparr>start = now, totalMs = base_ms v + of_int \<lfloor>random * spread_ms v\<rfloor>,
                payload_var = None, stepIdx = 0, anim = Running, req_settled = False,
                close_pending = False\<rparr>),
             next_run := Suc (next_run s)\<rparr>)"

text \<open>
  The callback of \<^verbatim>\<open>Promise.resolve(req).finally(...)\<close> for the invocation \<open>i\<close>: the
  final caption, the header and table on success, the bar's last state, and the timeout
  that closes the overlay.
\<close>

definition finalize :: "variant \<Rightarrow> nat \<Rightarrow> scan_page \<Rightarrow> scan_page" where
  "finalize v i s =
     (case runs s i of
        None \<Rightarrow> s
      | Some r \<Rightarrow>
          let succeeded = (case payload_var r of Some p \<Rightarrow> ok p | None \<Rightarrow> False);
              n = (case payload_var r of Some p \<Rightarrow> changed p | None \<Rightarrow> 0);
              s1 = s\<lparr>scanStatus :=
                      map_option (\<lambda>_. if succeeded
                                        then (if n > 0 then Found n else Nothing_found)
                                        else Scan_failed) (scanStatus s)\<rparr>;
              s2 = (case payload_var r of
                      Some p \<Rightarrow>
                        if ok p
                        then s1\<lparr>s_dash := renderAll (discovered p) (resolved p) (archived p)
                                             (updateCountsWallet p (s_dash s1))\<rparr>
                        else s1
                    | None \<Rightarrow> s1);
              s3 = (case v of
                      Long_eased \<Rightarrow>
                        s2\<lparr>scanBar :=
                             map_option (\<lambda>_. \<lparr>bar_width = Percent 100, ease_out = True\<rparr>)
                               (scanBar s2)\<rparr>
                    | Short_linear \<Rightarrow> s2)
          in s3\<lparr>runs := (runs s3)(i \<mapsto> r\<lparr>close_pending := True\<rparr>)\<rparr>)"

text \<open>
  The frame callback \<^verbatim>\<open>tick(now)\<close> of the invocation \<open>i\<close>. In its last branch it
  registers the \<^verbatim>\<open>finally\<close> callback on \<^verbatim>\<open>req\<close>: a callback registered on a settled
  promise runs at once, one registered on a pending promise runs when the promise settles
  (see \<open>settle\<close>).
\<close>

definition tick :: "variant \<Rightarrow> nat \<Rightarrow> rat \<Rightarrow> scan_page \<Rightarrow> scan_page" where
  "tick v i now s =
     (case runs s i of
        None \<Rightarrow> s
      | Some r \<Rightarrow>
          if anim r \<noteq> Running then s
          else
            let elapsed = now - start r;
                pct = min 100 (js_round (elapsed / totalMs r * 100));
                s1 = s\<lparr>scanBar :=
                        map_option (\<lambda>b. b\<lparr>bar_width :=
                            (case v of Long_eased \<Rightarrow> Eased pct
                             | Short_linear \<Rightarrow> Percent (of_int pct))\<rparr>) (scanBar s)\<rparr>;
                due = (case v of
                         Long_eased \<Rightarrow>
                           stepIdx r < 5 \<and> elapsed \<ge> (of_nat (stepIdx r) + 1) * (totalMs r / 5)
                       | Short_linear \<Rightarrow>
                           elapsed > (of_nat (stepIdx r) + 1) * 800 \<and> stepIdx r < 5);
                shown = (due \<and> scanStatus s1 \<noteq> None);
                r1 = (if shown then r\<lparr>stepIdx := Suc (stepIdx r)\<rparr> else r);
                s2 = (if shown then s1\<lparr>scanStatus := Some (Stage (stepIdx r))\<rparr> else s1)
            in if elapsed < totalMs r then s2\<lparr>runs := (runs s2)(i \<mapsto> r1)\<rparr>
               else
                 let s3 = s2\<lparr>runs := (runs s2)(i \<mapsto> r1\<lparr>anim := Elapsed now\<rparr>)\<rparr>
                 in if req_settled r1 then finalize v i s3 else s3)"

text \<open>
  The request of the invocation \<open>i\<close> settles: the \<^verbatim>\<open>then\<close> callback stores the body in
  \<^verbatim>\<open>payload\<close>, the \<^verbatim>\<open>catch\<close> callback stores \<^verbatim>\<open>{ok: false}\<close> after a network failure
  or a body that is not JSON. A \<^verbatim>\<open>finally\<close> callback registered before runs now.
\<close>

definition settle :: "variant \<Rightarrow> nat \<Rightarrow> response \<Rightarrow> scan_page \<Rightarrow> scan_page" where
  "settle v i resp s =
     (case runs s i of
        None \<Rightarrow> s
      | Some r \<Rightarrow>
          if req_settled r then s
          else
            let p = (case resp of Http _ (Some d) \<Rightarrow> d | _ \<Rightarrow> empty_payload);
                s1 = s\<lparr>runs := (runs s)(i \<mapsto> r\<lparr>payload_var := Some p, req_settled := True\<rparr>)\<rparr>
            in case anim r of Running \<Rightarrow> s1 | Elapsed _ \<Rightarrow> finalize v i s1)"

text \<open>The timeout callback of the invocation \<open>i\<close>; nothing of the invocation is left after it.\<close>

definition close_overlay :: "nat \<Rightarrow> scan_page \<Rightarrow> scan_page" where
  "close_overlay i s =
     (case runs s i of
        None \<Rightarrow> s
      | Some r \<Rightarrow>
          if \<not> close_pending r then s
          else s\<lparr>overlay := map_option (\<lambda>_. ''none'') (overlay s),
                 scanBtn := map_option (\<lambda>_. False) (scanBtn s),
                 scanInFlight := False,
                 runs := (runs s)(i := None)\<rparr>)"

text \<open>
  What can happen on the page: a click or submit that calls \<^verbatim>\<open>doScan\<close> (with the value
  \<^verbatim>\<open>Math.random()\<close> returns and the clock's reading), a frame, a response, the timeout.
  A callback that is not pending cannot run: such an event leaves the page as it is.
\<close>

datatype scan_event =
    Trigger rat rat
  | Frame nat rat
  | Settles nat response
  | Timeout_fires nat

definition scan_step :: "variant \<Rightarrow> scan_event \<Rightarrow> scan_page \<Rightarrow> scan_page" where
  "scan_step v e s =
     (case e of
        Trigger random now \<Rightarrow> doScan v random now s
      | Frame i now \<Rightarrow> tick v i now s
      | Settles i resp \<Rightarrow> settle v i resp s
      | Timeout_fires i \<Rightarrow> close_overlay i s)"

inductive scan_reachable :: "variant \<Rightarrow> scan_page \<Rightarrow> bool" for v :: variant where
  loaded: "\<not> scanInFlight s \<Longrightarrow> (\<forall>i. runs s i = None) \<Longrightarrow> scan_reachable v s"
| after: "scan_reachable v s \<Longrightarrow> scan_reachable v (scan_step v e s)"

subsection \<open>What the scan overlay's properties speak of\<close>

text \<open>
  \<open>run_ok\<close> and \<open>scan_inv\<close> are the facts every reachable page satisfies. An
  invocation is finalized once its close timeout is pending. \<open>finalization_effect s s'\<close>
  says that the step from \<open>s\<close> to \<open>s'\<close> did something only the \<^verbatim>\<open>finally\<close> callback
  does: it changed the header, wallet or table, wrote a final caption, set the bar's
  closing transition, or scheduled the close timeout. \<open>joined e s'\<close> says that after the
  event \<open>e\<close> an invocation is finalized whose request has settled and whose animation
  ended in a frame at least \<^verbatim>\<open>totalMs\<close> after \<^verbatim>\<open>start\<close>, \<open>e\<close> being the later of the
  two.
\<close>

definition run_ok :: "scan_run \<Rightarrow> bool" where
  "run_ok r = ((\<forall>t. anim r = Elapsed t \<longrightarrow> totalMs r \<le> t - start r) \<and>
               (close_pending r \<longrightarrow> req_settled r \<and> anim r \<noteq> Running) \<and>
               (req_settled r \<longrightarrow> payload_var r \<noteq> None))"

definition scan_inv :: "scan_page \<Rightarrow> bool" where
  "scan_inv s = ((\<forall>i j. runs s i \<noteq> None \<longrightarrow> runs s j \<noteq> None \<longrightarrow> i = j) \<and>
     (\<forall>i. runs s i \<noteq> None \<longrightarrow> scanInFlight s) \<and>
     (\<forall>i r. runs s i = Some r \<longrightarrow> run_ok r))"

definition final_text :: "scan_text \<Rightarrow> bool" where
  "final_text c = (case c of Stage _ \<Rightarrow> False | _ \<Rightarrow> True)"

definition finalization_effect :: "scan_page \<Rightarrow> scan_page \<Rightarrow> bool" where
  "finalization_effect s s' =
     (s_dash s' \<noteq> s_dash s \<or>
      (\<exists>c. scanStatus s' = Some c \<and> final_text c \<and> scanStatus s \<noteq> Some c) \<or>
      (\<exists>b. scanBar s' = Some b \<and> ease_out b \<and> \<not> (\<exists>b0. scanBar s = Some b0 \<and> ease_out b0)) \<or>
      (\<exists>i r'. runs s' i = Some r' \<and> close_pending r' \<and>
               \<not> (\<exists>r. runs s i = Some r \<and> close_pending r)))"

definition joined :: "scan_event \<Rightarrow> scan_page \<Rightarrow> bool" where
  "joined e s' =
     (\<exists>i r' t. runs s' i = Some r' \<and> close_pending r' \<and> req_settled r' \<and>
        payload_var r' \<noteq> None \<and> anim r' = Elapsed t \<and> totalMs r' \<le> t - start r' \<and>
        (e = Frame i t \<or> (\<exists>resp. e = Settles i resp)))"

section \<open>resolve\_ports.js: the row action controller\<close>

subsection \<open>Rows, timers and pending work\<close>

text \<open>
  A table row as \<^verbatim>\<open>rowHtml\<close> builds it: its \<^verbatim>\<open>data-row-id\<close>, the status cell, and the
  \<^verbatim>\<open>.row-actions\<close> block. The block holds either the controls of a discovered row (the
  resolve and archive forms and the mini progress indicator with its fill and its text),
  or the dash that \<^verbatim>\<open>finalizeResolve\<close> and \<^verbatim>\<open>finalizeArchive\<close> put in their place;
  replacing the block's content removes the indicator with it. \<open>None\<close> stands for a
  missing element.
\<close>

datatype row_status = Status_from_server | Status_resolved | Status_archived

datatype mini_text = Txt_initial | Txt_countdown int | Txt_resolving

record mini_progress =
  mini_hidden :: bool
  mini_fill :: rat
  mini_txt :: mini_text

datatype actions = Controls mini_progress | Dash

record row =
  data_row_id :: string
  td_status :: "row_status option"
  row_actions :: "actions option"

text \<open>
  A row element is known by a number. The closures of the script keep the element they
  were created with, whether it is still in the table or not.
\<close>

type_synonym row_ref = nat

text \<open>
  The callbacks of the resolve flow. Three places of \<^verbatim>\<open>handleResolve\<close> handle the result
  of the first \<^verbatim>\<open>apiResolve\<close> call with the same code (success, too early, anything else)
  and the same \<^verbatim>\<open>catch\<close>: \<open>Payload_handler\<close>. Three places handle the result of the
  call made after a too-early countdown, again with the same code: \<open>P2_handler\<close>. The
  two completion callbacks handed to \<^verbatim>\<open>startMiniCountdown\<close> call \<^verbatim>\<open>apiResolve\<close> and
  attach one of the two handlers.
\<close>

datatype handler =
    Payload_handler row_ref string string
  | P2_handler row_ref

datatype on_done =
    Resolve_then_payload string row_ref string
  | Resolve_then_p2 string row_ref

text \<open>
  A running interval timer of \<^verbatim>\<open>startMiniCountdown\<close> with the constants of its closure
  and the period, in milliseconds, it was given to \<^verbatim>\<open>setInterval\<close>.
\<close>

record countdown =
  cd_row :: row_ref
  cd_rowId :: string
  cd_total :: int
  cd_start :: int
  cd_every :: nat
  cd_onDone :: "on_done option"

text \<open>
  What a promise the script waits on is waiting for. The promise that \<^verbatim>\<open>apiResolve\<close>
  returns waits for the response of its request with the attempt number of that request,
  or, between two attempts, for the back-off timeout (with its delay and the number of the
  attempt to make next).
\<close>

datatype task =
    Remaining_fetch row_ref string string
  | Resolve_fetch string nat handler
  | Resolve_backoff nat string nat handler
  | Archive_fetch row_ref
  | Unarchive_fetch

text \<open>
  The requests the script has sent. A resolve request is recorded with the number of the
  \<^verbatim>\<open>apiResolve\<close> promise it belongs to, the port, its \<^verbatim>\<open>X-Idempotency-Key\<close> header and
  its attempt number.
\<close>

datatype request =
    Get_remaining string
  | Post_resolve nat string string nat
  | Post_archive string
  | Post_unarchive string

text \<open>
  The page: \<^verbatim>\<open>VM.state.rowTimers\<close>, the browser's running interval timers by handle and
  the next handle \<^verbatim>\<open>setInterval\<close> will return, the pending promises, the row elements,
  the shared header elements, the requests sent, and how often \<^verbatim>\<open>H.idempotencyKey\<close> has
  been called.
\<close>

record rpage =
  rowTimers :: "string \<Rightarrow> nat option"
  intervals :: "nat \<Rightarrow> countdown option"
  next_handle :: nat
  tasks :: "nat \<Rightarrow> task option"
  next_task :: nat
  rows :: "row_ref \<Rightarrow> row"
  r_dash :: dashboard
  sent :: "request list"
  key_calls :: nat

subsection \<open>Timers and API calls\<close>

text \<open>\<^verbatim>\<open>if (t)\<close> is false for a missing entry and for the handle 0.\<close>

definition stopTimerForRow :: "string \<Rightarrow> rpage \<Rightarrow> rpage" where
  "stopTimerForRow rowKey s =
     (case rowTimers s rowKey of
        None \<Rightarrow> s
      | Some t \<Rightarrow>
          if t = 0 then s
          else s\<lparr>intervals := (intervals s)(t := None),
                 rowTimers := (rowTimers s)(rowKey := None)\<rparr>)"

text \<open>
  \<^verbatim>\<open>apiResolve(portId, attempt)\<close>, as far as it runs at once: it draws a key, sends the
  request, and the promise \<open>i\<close> waits for the response. \<open>apiResolve_call\<close> is the call
  from outside, \<^verbatim>\<open>apiResolve(pid)\<close>: a new promise and the default attempt 0.
\<close>

definition apiResolve :: "keysrc \<Rightarrow> string \<Rightarrow> nat \<Rightarrow> handler \<Rightarrow> nat \<Rightarrow> rpage \<Rightarrow> rpage" where
  "apiResolve g portId attempt k i s =
     s\<lparr>sent := sent s @ [Post_resolve i portId (idempotencyKey g (key_calls s)) attempt],
       key_calls := Suc (key_calls s),
       tasks := (tasks s)(i \<mapsto> Resolve_fetch portId attempt k)\<rparr>"

definition apiResolve_call :: "keysrc \<Rightarrow> string \<Rightarrow> handler \<Rightarrow> rpage \<Rightarrow> rpage" where
  "apiResolve_call g pid k s =
     apiResolve g pid 0 k (next_task s) (s\<lparr>next_task := Suc (next_task s)\<rparr>)"

definition apiRemaining :: "string \<Rightarrow> row_ref \<Rightarrow> string \<Rightarrow> rpage \<Rightarrow> rpage" where
  "apiRemaining pid rw rowId s =
     s\<lparr>sent := sent s @ [Get_remaining pid],
       tasks := (tasks s)(next_task s \<mapsto> Remaining_fetch rw rowId pid),
       next_task := Suc (next_task s)\<rparr>"

definition apiArchive :: "string \<Rightarrow> row_ref \<Rightarrow> rpage \<Rightarrow> rpage" where
  "apiArchive pid rw s =
     s\<lparr>sent := sent s @ [Post_archive pid],
       tasks := (tasks s)(next_task s \<mapsto> Archive_fetch rw),
       next_task := Suc (next_task s)\<rparr>"

definition apiUnarchive :: "string \<Rightarrow> rpage \<Rightarrow> rpage" where
  "apiUnarchive pid s =
     s\<lparr>sent := sent s @ [Post_unarchive pid],
       tasks := (tasks s)(next_task s \<mapsto> Unarchive_fetch),
       next_task := Suc (next_task s)\<rparr>"

subsection \<open>UI helpers\<close>

definition with_mini :: "(mini_progress \<Rightarrow> mini_progress) \<Rightarrow> row \<Rightarrow> row" where
  "with_mini f rw =
     (case row_actions rw of
        Some (Controls m) \<Rightarrow> rw\<lparr>row_actions := Some (Controls (f m))\<rparr>
      | _ \<Rightarrow> rw)"

definition on_row :: "row_ref \<Rightarrow> (row \<Rightarrow> row) \<Rightarrow> rpage \<Rightarrow> rpage" where
  "on_row rw f s = s\<lparr>rows := (rows s)(rw := f (rows s rw))\<rparr>"

text \<open>
  \<^verbatim>\<open>const mini = row.querySelector('.mini-progress'); if (mini) mini.hidden = true;\<close>
  as every failure branch of the resolve flow has it.
\<close>

definition hide_mini :: "row_ref \<Rightarrow> rpage \<Rightarrow> rpage" where
  "hide_mini rw s = on_row rw (with_mini (\<lambda>m. m\<lparr>mini_hidden := True\<rparr>)) s"

definition finalizeResolve :: "row_ref \<Rightarrow> payload \<Rightarrow> rpage \<Rightarrow> rpage" where
  "finalizeResolve rw p s =
     (let s1 = on_row rw (\<lambda>r. r\<lparr>td_status := map_option (\<lambda>_. Status_resolved) (td_status r),
                                row_actions := map_option (\<lambda>_. Dash) (row_actions r)\<rparr>)
                 (hide_mini rw s)
      in s1\<lparr>r_dash := updateCountsWallet p (r_dash s1)\<rparr>)"

definition finalizeArchive :: "row_ref \<Rightarrow> rpage \<Rightarrow> rpage" where
  "finalizeArchive rw s =
     on_row rw (\<lambda>r. r\<lparr>td_status := map_option (\<lambda>_. Status_archived) (td_status r),
                       row_actions := map_option (\<lambda>_. Dash) (row_actions r)\<rparr>)
       (hide_mini rw s)"

definition refreshFromPayload :: "payload \<Rightarrow> rpage \<Rightarrow> rpage" where
  "refreshFromPayload p s =
     (let db = (if discovered p \<noteq> None \<and> resolved p \<noteq> None \<and> archived p \<noteq> None
                then renderAll (discovered p) (resolved p) (archived p) (r_dash s)
                else r_dash s)
      in s\<lparr>r_dash := updateCountsWallet p db\<rparr>)"

text \<open>
  \<^verbatim>\<open>startMiniCountdown(row, rowId, seconds, onDone)\<close> at the clock reading \<open>now\<close>. The
  seconds are whole numbers, so \<^verbatim>\<open>parseInt(seconds || 0, 10)\<close> is \<open>seconds\<close>.
\<close>

definition startMiniCountdown ::
  "row_ref \<Rightarrow> string \<Rightarrow> int \<Rightarrow> on_done option \<Rightarrow> int \<Rightarrow> rpage \<Rightarrow> rpage" where
  "startMiniCountdown rw rowId seconds onDone now s =
     (let s1 = on_row rw (with_mini (\<lambda>m. \<lparr>mini_hidden = False, mini_fill = 0,
                                           mini_txt = Txt_countdown seconds\<rparr>)) s;
          s2 = stopTimerForRow rowId s1;
          total = max 0 seconds;
          timer = next_handle s2
      in s2\<lparr>intervals := (intervals s2)(timer \<mapsto>
                \<lparr>cd_row = rw, cd_rowId = rowId, cd_total = total, cd_start = now,
                 cd_every = 300, cd_onDone = onDone\<rparr>),
            next_handle := Suc timer,
            rowTimers := (rowTimers s2)(rowId \<mapsto> timer)\<rparr>)"

definition run_onDone :: "keysrc \<Rightarrow> on_done \<Rightarrow> rpage \<Rightarrow> rpage" where
  "run_onDone g od s =
     (case od of
        Resolve_then_payload pid rw rowId \<Rightarrow> apiResolve_call g pid (Payload_handler rw rowId pid) s
      | Resolve_then_p2 pid rw \<Rightarrow> apiResolve_call g pid (P2_handler rw) s)"

text \<open>
  The callback of the interval timer \<open>h\<close>, run at the clock reading \<open>now\<close>. A timer that
  was cleared does not run. With a total of 0 the percentage is NaN and the width it is
  written to keeps its value.
\<close>

definition seconds_left :: "int \<Rightarrow> int \<Rightarrow> int \<Rightarrow> int" where
  "seconds_left whole start_ms now = max 0 (whole - (now - start_ms) div 1000)"

definition interval_tick :: "keysrc \<Rightarrow> nat \<Rightarrow> int \<Rightarrow> rpage \<Rightarrow> rpage" where
  "interval_tick g h now s =
     (case intervals s h of
        None \<Rightarrow> s
      | Some c \<Rightarrow>
          let total = cd_total c;
              left = seconds_left total (cd_start c) now;
              s1 = on_row (cd_row c) (with_mini (\<lambda>m.
                     m\<lparr>mini_fill :=
                          (if total = 0 then mini_fill m
                           else of_int (min 100 (js_round
                                  (of_int (total - left) / of_int total * 100)))),
                       mini_txt := Txt_countdown left\<rparr>)) s
          in if left \<le> 0 then
               let s2 = s1\<lparr>intervals := (intervals s1)(h := None),
                           rowTimers := (rowTimers s1)(cd_rowId c := None)\<rparr>;
                   s3 = on_row (cd_row c) (with_mini (\<lambda>m. m\<lparr>mini_txt := Txt_resolving\<rparr>)) s2
               in (case cd_onDone c of None \<Rightarrow> s3 | Some od \<Rightarrow> run_onDone g od s3)
             else s1)"

subsection \<open>The resolve flow\<close>

text \<open>
  A handler receives what the \<^verbatim>\<open>apiResolve\<close> promise settles with: \<open>Some p\<close> when it is
  fulfilled with the body \<open>p\<close>, \<open>None\<close> when it is rejected (the \<^verbatim>\<open>catch\<close> callback).
\<close>

definition too_early :: "payload \<Rightarrow> bool" where
  "too_early p =
     (error p = ''too_early'' \<and> (case seconds_remaining p of Some n \<Rightarrow> n > 0 | None \<Rightarrow> False))"

definition resume :: "handler \<Rightarrow> payload option \<Rightarrow> int \<Rightarrow> rpage \<Rightarrow> rpage" where
  "resume k settled now s =
     (case k of
        Payload_handler rw rowId pid \<Rightarrow>
          (case settled of
             Some p \<Rightarrow>
               if ok p then finalizeResolve rw p s
               else if too_early p
                    then startMiniCountdown rw rowId (the (seconds_remaining p))
                           (Some (Resolve_then_p2 pid rw)) now s
                    else hide_mini rw s
           | None \<Rightarrow> hide_mini rw s)
      | P2_handler rw \<Rightarrow>
          (case settled of
             Some p \<Rightarrow> if ok p then finalizeResolve rw p s else hide_mini rw s
           | None \<Rightarrow> hide_mini rw s))"

text \<open>The decimal digits of a status code, for \<^verbatim>\<open>'http_' + r.status\<close>.\<close>

function decimal :: "nat \<Rightarrow> string" where
  "decimal n =
     (if n < 10 then [char_of (48 + n)] else decimal (n div 10) @ [char_of (48 + n mod 10)])"
  by pat_completeness auto
termination
  by (relation "measure id") auto

declare decimal.simps [simp del]

text \<open>
  The \<^verbatim>\<open>then\<close> callback inside \<^verbatim>\<open>apiResolve\<close>, run when the request of the promise
  \<open>i\<close> settles with \<open>resp\<close>; a rejected \<^verbatim>\<open>fetch\<close> or a body that is not JSON rejects
  the promise.
\<close>

definition resolve_settles ::
  "nat \<Rightarrow> string \<Rightarrow> nat \<Rightarrow> handler \<Rightarrow> response \<Rightarrow> int \<Rightarrow> rpage \<Rightarrow> rpage" where
  "resolve_settles i portId attempt k resp now s =
     (let done = s\<lparr>tasks := (tasks s)(i := None)\<rparr> in
      case resp of
        Rejected \<Rightarrow> resume k None now done
      | Http st body \<Rightarrow>
          if http_ok st then resume k body now done
          else if (st = 409 \<or> st = 423) \<and> attempt < 2
               then s\<lparr>tasks := (tasks s)(i \<mapsto>
                        Resolve_backoff (150 * (attempt + 1)) portId (attempt + 1) k)\<rparr>
               else resume k (Some (empty_payload\<lparr>error := ''http_'' @ decimal st\<rparr>)) now done)"

text \<open>
  The two callbacks on \<^verbatim>\<open>apiRemaining(pid)\<close>: the \<^verbatim>\<open>then\<close> callback (step A) for a
  response that is OK and JSON, the \<^verbatim>\<open>catch\<close> callback (step B) otherwise.
\<close>

definition remaining_settles ::
  "keysrc \<Rightarrow> nat \<Rightarrow> row_ref \<Rightarrow> string \<Rightarrow> string \<Rightarrow> response \<Rightarrow> int \<Rightarrow> rpage \<Rightarrow> rpage" where
  "remaining_settles g i rw rowId pid resp now s =
     (let done = s\<lparr>tasks := (tasks s)(i := None)\<rparr>;
          step_B = apiResolve_call g pid (Payload_handler rw rowId pid) done
      in case resp of
           Http st (Some d) \<Rightarrow>
             if http_ok st then
               let rem = max 0 (case remaining d of Some n \<Rightarrow> n | None \<Rightarrow> 0) in
               if rem \<le> 0 then apiResolve_call g pid (Payload_handler rw rowId pid) done
               else startMiniCountdown rw rowId rem
                      (Some (Resolve_then_payload pid rw rowId)) now done
             else step_B
         | _ \<Rightarrow> step_B)"

record resolve_btn =
  closest_tr :: "row_ref option"
  dataset_portId :: string

definition handleResolve :: "resolve_btn \<Rightarrow> rpage \<Rightarrow> rpage" where
  "handleResolve b s =
     (case closest_tr b of
        None \<Rightarrow> s
      | Some rw \<Rightarrow>
          let pid = dataset_portId b;
              rowId = (if data_row_id (rows s rw) \<noteq> [] then data_row_id (rows s rw) else pid)
          in apiRemaining pid rw rowId (stopTimerForRow rowId s))"

subsection \<open>The archive flows\<close>

record archive_btn =
  archive_tr :: "row_ref option"
  form_port_id :: string

definition handleArchive :: "archive_btn \<Rightarrow> rpage \<Rightarrow> rpage" where
  "handleArchive b s =
     (case archive_tr b of
        None \<Rightarrow> s
      | Some rw \<Rightarrow>
          let rowId = data_row_id (rows s rw); pid = form_port_id b in
          if pid = [] then s
          else apiArchive pid rw (stopTimerForRow (if rowId \<noteq> [] then rowId else pid) s))"

definition handleUnarchive :: "string \<Rightarrow> rpage \<Rightarrow> rpage" where
  "handleUnarchive pid s = (if pid = [] then s else apiUnarchive pid s)"

text \<open>\<^verbatim>\<open>.then(r => r.json())\<close> reads the body whatever the status.\<close>

definition archive_settles :: "nat \<Rightarrow> row_ref \<Rightarrow> response \<Rightarrow> rpage \<Rightarrow> rpage" where
  "archive_settles i rw resp s =
     (let done = s\<lparr>tasks := (tasks s)(i := None)\<rparr> in
      case resp of
        Http _ (Some d) \<Rightarrow> if ok d then refreshFromPayload d (finalizeArchive rw done) else done
      | _ \<Rightarrow> done)"

definition unarchive_settles :: "nat \<Rightarrow> response \<Rightarrow> rpage \<Rightarrow> rpage" where
  "unarchive_settles i resp s =
     (let done = s\<lparr>tasks := (tasks s)(i := None)\<rparr> in
      case resp of
        Http _ (Some d) \<Rightarrow> if ok d then refreshFromPayload d done else done
      | _ \<Rightarrow> done)"

subsection \<open>The page as a transition system\<close>

text \<open>
  What can happen on the page: a click on a resolve, archive or restore button; the
  response to the request a promise waits for, at some clock reading; the back-off timeout
  of a promise; a run of an interval timer's callback at some clock reading. An event for
  a promise or a timer that does not wait for it leaves the page as it is. No order and
  no timing of the events is assumed.
\<close>

datatype event =
    Click_resolve resolve_btn
  | Click_archive archive_btn
  | Click_unarchive string
  | Response nat response int
  | Backoff_over nat
  | Interval nat int

definition step :: "keysrc \<Rightarrow> event \<Rightarrow> rpage \<Rightarrow> rpage" where
  "step g e s =
     (case e of
        Click_resolve b \<Rightarrow> handleResolve b s
      | Click_archive b \<Rightarrow> handleArchive b s
      | Click_unarchive pid \<Rightarrow> handleUnarchive pid s
      | Response i resp now \<Rightarrow>
          (case tasks s i of
             Some (Remaining_fetch rw rowId pid) \<Rightarrow> remaining_settles g i rw rowId pid resp now s
           | Some (Resolve_fetch portId attempt k) \<Rightarrow> resolve_settles i portId attempt k resp now s
           | Some (Archive_fetch rw) \<Rightarrow> archive_settles i rw resp s
           | Some Unarchive_fetch \<Rightarrow> unarchive_settles i resp s
           | _ \<Rightarrow> s)
      | Backoff_over i \<Rightarrow>
          (case tasks s i of
             Some (Resolve_backoff _ portId attempt k) \<Rightarrow> apiResolve g portId attempt k i s
           | _ \<Rightarrow> s)
      | Interval h now \<Rightarrow> interval_tick g h now s)"

definition page_loaded :: "rpage \<Rightarrow> bool" where
  "page_loaded s =
     ((\<forall>k. rowTimers s k = None) \<and> (\<forall>h. intervals s h = None) \<and> (\<forall>i. tasks s i = None) \<and>
      sent s = [] \<and> key_calls s = 0 \<and> 0 < next_handle s)"

inductive reachable :: "keysrc \<Rightarrow> rpage \<Rightarrow> bool" for g :: keysrc where
  start: "page_loaded s \<Longrightarrow> reachable g s"
| step: "reachable g s \<Longrightarrow> reachable g (step g e s)"

definition run :: "keysrc \<Rightarrow> event list \<Rightarrow> rpage \<Rightarrow> rpage" where
  "run g es s = foldl (\<lambda>s e. step g e s) s es"

subsection \<open>What the controller's properties speak of\<close>

text \<open>
  \<open>timers_inv\<close>: every entry of \<^verbatim>\<open>rowTimers\<close> is the handle of a running timer
  started for that key, and every running timer is the entry of its key. \<open>same_timers\<close>
  and \<open>same_net\<close> say that a step left the timers, or the pending promises and the
  requests sent, as they were. \<open>calls_of i\<close> counts the requests of the \<^verbatim>\<open>apiResolve\<close>
  promise \<open>i\<close>, \<open>attempts_of\<close> and \<open>keys_of\<close> list the attempt numbers and the
  idempotency keys of the resolve requests in the order they were sent. \<open>retry_inv\<close> and
  \<open>keys_inv\<close> are the facts about them that every reachable page satisfies.
\<close>

definition timers_inv :: "rpage \<Rightarrow> bool" where
  "timers_inv s =
     (0 < next_handle s \<and>
      (\<forall>k h. rowTimers s k = Some h \<longrightarrow> (\<exists>c. intervals s h = Some c \<and> cd_rowId c = k)) \<and>
      (\<forall>h c. intervals s h = Some c \<longrightarrow>
         0 < h \<and> h < next_handle s \<and> rowTimers s (cd_rowId c) = Some h))"

definition same_timers :: "rpage \<Rightarrow> rpage \<Rightarrow> bool" where
  "same_timers s s' =
     (rowTimers s' = rowTimers s \<and> intervals s' = intervals s \<and> next_handle s' = next_handle s)"

definition same_net :: "rpage \<Rightarrow> rpage \<Rightarrow> bool" where
  "same_net s s' =
     (tasks s' = tasks s \<and> next_task s' = next_task s \<and> sent s' = sent s \<and>
      key_calls s' = key_calls s)"

definition calls_of :: "nat \<Rightarrow> request list \<Rightarrow> nat" where
  "calls_of i rs =
     length (filter (\<lambda>r. case r of Post_resolve j _ _ _ \<Rightarrow> j = i | _ \<Rightarrow> False) rs)"

definition attempts_of :: "request list \<Rightarrow> nat list" where
  "attempts_of rs = concat (map (\<lambda>r. case r of Post_resolve _ _ _ a \<Rightarrow> [a] | _ \<Rightarrow> []) rs)"

definition task_ok :: "nat \<Rightarrow> task option \<Rightarrow> bool" where
  "task_ok n t =
     (case t of
        Some (Resolve_fetch _ a _) \<Rightarrow> a \<le> 2 \<and> n = Suc a
      | Some (Resolve_backoff d _ a _) \<Rightarrow> 1 \<le> a \<and> a \<le> 2 \<and> d = 150 * a \<and> n = a
      | _ \<Rightarrow> n \<le> 3)"

definition retry_inv :: "rpage \<Rightarrow> bool" where
  "retry_inv s =
     ((\<forall>i. task_ok (calls_of i (sent s)) (tasks s i)) \<and>
      (\<forall>i. next_task s \<le> i \<longrightarrow> tasks s i = None \<and> calls_of i (sent s) = 0) \<and>
      (\<forall>a \<in> set (attempts_of (sent s)). a \<le> 2))"

definition keys_of :: "request list \<Rightarrow> string list" where
  "keys_of rs = concat (map (\<lambda>r. case r of Post_resolve _ _ key _ \<Rightarrow> [key] | _ \<Rightarrow> []) rs)"

definition keys_inv :: "keysrc \<Rightarrow> rpage \<Rightarrow> bool" where
  "keys_inv g s = (keys_of (sent s) = map (idempotencyKey g) [0..<key_calls s])"


section \<open>Example inputs\<close>

text \<open>
  A page that has every element of the news module, before any job was rendered; a job
  that started at time 0 with its ETA ten seconds later; and the same job as the server
  reports it once completed, with no hit.
\<close>

definition news_page :: news where
  "news_page =
     \<lparr>job = None, tickTimer = False, pollTimer = None,
      btn = Some \<lparr>disabled = False, label = Btn_run_search\<rparr>,
      progressWrap = Some True, progressFill = Some 0, timerEl = Some Timer_empty,
      resultBox = Some True, resultTitle = Some Title_no_hit, resultBody = Some Body_empty,
      hitMeta = Some Meta_empty, preview = Some Preview_placeholder,
      statusPill = Some (''idle'', Pill_idle),
      clearBtn = Some \<lparr>clear_disabled = False, clear_hidden = True,
                        clear_label = Clear_original\<rparr>\<rparr>"

definition job_running :: job where
  "job_running =
     \<lparr>status = ''in_progress'', started_at = At 0, eta = At 10000, duration_sec = 10,
      result = None\<rparr>"

definition job_done :: job where
  "job_done =
     \<lparr>status = ''completed'', started_at = At 0, eta = At 10000, duration_sec = 10,
      result = Some \<lparr>has_hit = False, message = ''nothing found'', hit_display = None\<rparr>\<rparr>"

text \<open>
  A dashboard that has the header line, both wallet figures and the table; a page with the
  withdrawal form on it; and the body of a successful withdrawal response.
\<close>

definition dash_example :: dashboard where
  "dash_example =
     \<lparr>hdr_counts = Some None, el_available_balance = Some 100, el_total_earned = Some 100,
      ports_body = Some Table_from_server\<rparr>"



text \<open>
  A page on which no scan has run yet, and a trace of the long variant: the click (the
  random number 1/2 gives a duration of 16 seconds), the response after that (three ports
  found), a frame at 8 seconds and the frame at 16 seconds.
\<close>

definition scan_loaded :: scan_page where
  "scan_loaded =
     \<lparr>scanInFlight = False, overlay = Some ''none'', scanBtn = Some False,
      scanBar = Some \<lparr>bar_width = Percent 0, ease_out = False\<rparr>,
      scanStatus = Some (Stage 0), s_dash = dash_example, scan_requests = 0,
      runs = (\<lambda>_. None), next_run = 0\<rparr>"

definition scan_found :: payload where
  "scan_found = empty_payload\<lparr>ok := True, changed := 3\<rparr>"

definition scan_clicked :: scan_page where
  "scan_clicked = scan_step Long_eased (Trigger (1 / 2) 0) scan_loaded"

definition scan_answered :: scan_page where
  "scan_answered = scan_step Long_eased (Settles 0 (Http 200 (Some scan_found))) scan_clicked"

definition scan_halfway :: scan_page where
  "scan_halfway = scan_step Long_eased (Frame 0 8000) scan_answered"

text \<open>
  A browser with \<^verbatim>\<open>crypto.randomUUID\<close>, whose \<open>n\<close>-th identifier is written
  \<open>uuid-n\<close>; a page with discovered rows of port 7 and no timer or request yet; a click
  on the resolve button of row 0; two bodies of the resolve endpoint. In the first trace
  the priming request fails with status 404 and the resolve call reports too early with
  five seconds: \<open>counting\<close> is the page with that countdown running. In the second
  trace the resolve call meets 409, 423 and 409.
\<close>

definition uuid_source :: keysrc where
  "uuid_source =
     \<lparr>has_randomUUID = True, randomUUID = (\<lambda>n. ''uuid-'' @ decimal n),
      date_now_string = (\<lambda>_. []), random_hex = (\<lambda>_. [])\<rparr>"

definition discovered_row :: row where
  "discovered_row =
     \<lparr>data_row_id = ''7'', td_status = Some Status_from_server,
      row_actions = Some (Controls \<lparr>mini_hidden = True, mini_fill = 0, mini_txt = Txt_initial\<rparr>)\<rparr>"

definition rpage_loaded :: rpage where
  "rpage_loaded =
     \<lparr>rowTimers = (\<lambda>_. None), intervals = (\<lambda>_. None), next_handle = 1,
      tasks = (\<lambda>_. None), next_task = 0, rows = (\<lambda>_. discovered_row),
      r_dash = dash_example, sent = [], key_calls = 0\<rparr>"

definition resolve_click :: event where
  "resolve_click = Click_resolve \<lparr>closest_tr = Some 0, dataset_portId = ''7''\<rparr>"

definition too_early_5 :: payload where
  "too_early_5 = empty_payload\<lparr>error := ''too_early'', seconds_remaining := Some 5\<rparr>"

definition resolved_ok :: payload where
  "resolved_ok = empty_payload\<lparr>ok := True,
     wallet := Some \<lparr>available_balance = 110, total_earned = 110\<rparr>\<rparr>"

definition waiting_trace :: "event list" where
  "waiting_trace =
     [resolve_click, Response 0 (Http 404 None) 1000,
      Response 1 (Http 200 (Some too_early_5)) 2000]"

definition counting :: rpage where
  "counting = run uuid_source waiting_trace rpage_loaded"

definition retry_trace :: "event list" where
  "retry_trace =
     [resolve_click, Response 0 (Http 200 (Some (empty_payload\<lparr>ok := True, remaining := Some 0\<rparr>))) 1000,
      Response 1 (Http 409 None) 1100, Backoff_over 1,
      Response 1 (Http 423 None) 1400, Backoff_over 1,
      Response 1 (Http 409 None) 1900]"

text \<open>
  \<open>asked\<close>: the page of the first trace after the priming request has failed and the
  resolve call is under way; \<open>clicked\<close>: the page right after the click.
\<close>

definition clicked :: rpage where
  "clicked = run uuid_source [resolve_click] rpage_loaded"


text \<open>
  The pages of the second trace: \<open>retrying\<close> with the first resolve request under way,
  \<open>last_try\<close> with the third, \<open>exhausted\<close> after its 409 response.
\<close>

definition retrying :: rpage where
  "retrying = run uuid_source (take 2 retry_trace) rpage_loaded"

definition last_try :: rpage where
  "last_try = run uuid_source (take 6 retry_trace) rpage_loaded"

definition exhausted :: rpage where
  "exhausted = run uuid_source retry_trace rpage_loaded"

section \<open>Properties of the news-search poller\<close>

lemma toFixed2_bounds:
  assumes "0 \<le> x" and "x \<le> 99"
  shows "0 \<le> toFixed2 x \<and> toFixed2 x \<le> 99"
proof -
  have "\<lfloor>x * 100 + 1 / 2\<rfloor> \<le> 9900"
    using assms by (simp add: floor_le_iff)
  moreover have "0 \<le> \<lfloor>x * 100 + 1 / 2\<rfloor>"
    using assms by simp
  ultimately show ?thesis
    using assms by (simp add: toFixed2_def divide_le_eq)
qed

lemma progress_fraction_lower: "0 \<le> progress_fraction now a e"
  unfolding progress_fraction_def by (rule min.boundedI) simp_all

lemma progress_fraction_upper: "progress_fraction now a e \<le> 99 / 100"
  unfolding progress_fraction_def by (rule min.cobounded1)

lemma progress_percent_bounds:
  "0 \<le> toFixed2 (progress_fraction now a e * 100) \<and>
   toFixed2 (progress_fraction now a e * 100) \<le> 99"
proof (rule toFixed2_bounds)
  show "0 \<le> progress_fraction now a e * 100"
    using progress_fraction_lower [of now a e] by simp
  show "progress_fraction now a e * 100 \<le> 99"
    using progress_fraction_upper [of now a e] by simp
qed

lemma progressFill_scheduleStatusFetch [simp]:
  "progressFill (scheduleStatusFetch d s) = progressFill s"
  by (simp add: scheduleStatusFetch_def)

lemma updateProgressUI_fill:
  assumes "job s = Some j" and "status j = ''in_progress''"
    and "parse_started j = Some a" and "parse_eta j = Some e" and "a < e"
  shows "progressFill (updateProgressUI now s) =
           map_option (\<lambda>_. toFixed2 (progress_fraction now a e * 100)) (progressFill s)"
  using assms by (simp add: updateProgressUI_def Let_def)

lemma renderJob_in_progress_fill:
  assumes "status j = ''in_progress''"
    and "parse_started j = Some a" and "parse_eta j = Some e" and "a < e"
  shows "progressFill (renderJob now (Some j) s) =
           map_option (\<lambda>_. toFixed2 (progress_fraction now a e * 100)) (progressFill s)"
  using assms by (simp add: renderJob_def Let_def setStatus_def updateProgressUI_fill)

lemma renderJob_completed_fill:
  assumes "status j = ''completed''"
  shows "progressFill (renderJob now (Some j) s) = map_option (\<lambda>_. 100) (progressFill s)"
  using assms
  by (simp add: renderJob_def Let_def setStatus_def showResult_def updatePreview_def
      split: option.splits)

lemma renderJob_completed_resultBox:
  assumes "status j = ''completed''"
  shows "resultBox (renderJob now (Some j) s) = map_option (\<lambda>_. False) (resultBox s)"
  using assms
  by (simp add: renderJob_def Let_def setStatus_def showResult_def updatePreview_def
      split: option.splits)

text \<open>
  Claim C8. For a job in progress whose start and ETA parse and whose ETA is later than its
  start, the interpolated fraction lies in [0, 0.99]; the tick (\<open>updateProgressUI\<close>) and the
  rendering of such a job (\<open>renderJob\<close>) write that fraction as a percentage to the fill,
  so a fill that exists shows less than 100. Rendering a completed job sets the fill to
  exactly 100 and un-hides the result box (each where the element exists).
\<close>

theorem news_progress_below_100_until_completed:
  assumes "status j = ''in_progress''"
    and "parse_started j = Some a" and "parse_eta j = Some e" and "a < e"
    and "status j' = ''completed''"
  shows "0 \<le> progress_fraction now a e \<and> progress_fraction now a e \<le> 99 / 100 \<and>
         progress_fraction now a e = min (99 / 100) (max 0 ((now - a) / (e - a))) \<and>
         progressFill (updateProgressUI now (s\<lparr>job := Some j\<rparr>)) =
           map_option (\<lambda>_. toFixed2 (progress_fraction now a e * 100)) (progressFill s) \<and>
         (\<forall>w. progressFill (updateProgressUI now (s\<lparr>job := Some j\<rparr>)) = Some w
                \<longrightarrow> 0 \<le> w \<and> w < 100) \<and>
         (\<forall>w. progressFill (renderJob now (Some j) s) = Some w \<longrightarrow> 0 \<le> w \<and> w < 100) \<and>
         progressFill (renderJob now' (Some j') s) = map_option (\<lambda>_. 100) (progressFill s) \<and>
         resultBox (renderJob now' (Some j') s) = map_option (\<lambda>_. False) (resultBox s)"
proof -
  have tick: "progressFill (updateProgressUI now (s\<lparr>job := Some j\<rparr>)) =
      map_option (\<lambda>_. toFixed2 (progress_fraction now a e * 100)) (progressFill s)"
    using updateProgressUI_fill [of "s\<lparr>job := Some j\<rparr>" j a e now] assms by simp
  have render: "progressFill (renderJob now (Some j) s) =
      map_option (\<lambda>_. toFixed2 (progress_fraction now a e * 100)) (progressFill s)"
    using renderJob_in_progress_fill assms by simp
  have below: "0 \<le> toFixed2 (progress_fraction now a e * 100) \<and>
      toFixed2 (progress_fraction now a e * 100) < 100"
    using progress_percent_bounds [of now a e] by simp
  have "\<forall>w. progressFill (updateProgressUI now (s\<lparr>job := Some j\<rparr>)) = Some w
      \<longrightarrow> 0 \<le> w \<and> w < 100"
    using tick below by auto
  moreover have "\<forall>w. progressFill (renderJob now (Some j) s) = Some w \<longrightarrow> 0 \<le> w \<and> w < 100"
    using render below by auto
  moreover have "progress_fraction now a e = min (99 / 100) (max 0 ((now - a) / (e - a)))"
    by (simp add: progress_fraction_def)
  ultimately show ?thesis
    using tick progress_fraction_lower [of now a e] progress_fraction_upper [of now a e]
      renderJob_completed_fill [OF assms(5)] renderJob_completed_resultBox [OF assms(5)]
    by simp
qed

theorem news_progress_below_100_until_completed_witness:
  "progressFill (updateProgressUI 5000 (news_page\<lparr>job := Some job_running\<rparr>)) = Some 50 \<and>
   progressFill (updateProgressUI 60000 (news_page\<lparr>job := Some job_running\<rparr>)) = Some 99 \<and>
   progressFill (renderJob 60000 (Some job_done) news_page) = Some 100 \<and>
   resultBox (renderJob 60000 (Some job_done) news_page) = Some False"
proof -
  have running: "status job_running = ''in_progress''"
    and started: "parse_started job_running = Some 0"
    and eta_ms: "parse_eta job_running = Some 10000"
    and completed: "status job_done = ''completed''"
    by (simp_all add: job_running_def job_done_def parse_started_def parse_eta_def)
  have later: "(0::rat) < 10000" by simp
  note at_5s = news_progress_below_100_until_completed
      [OF running started eta_ms later completed, of 5000 news_page 60000]
  note at_60s = news_progress_below_100_until_completed
      [OF running started eta_ms later completed, of 60000 news_page 60000]
  have present: "progressFill news_page = Some 0" "resultBox news_page = Some True"
    by (simp_all add: news_page_def)
  have half: "toFixed2 (progress_fraction 5000 0 10000 * 100) = 50"
    by (simp add: progress_fraction_def toFixed2_def floor_eq_iff)
  have capped: "toFixed2 (progress_fraction 60000 0 10000 * 100) = 99"
    by (simp add: progress_fraction_def toFixed2_def floor_eq_iff)
  have "progressFill (updateProgressUI 5000 (news_page\<lparr>job := Some job_running\<rparr>)) = Some 50"
    using at_5s by (simp only: present half option.map)
  moreover
  have "progressFill (updateProgressUI 60000 (news_page\<lparr>job := Some job_running\<rparr>)) = Some 99"
    using at_60s by (simp only: present capped option.map)
  moreover have "progressFill (renderJob 60000 (Some job_done) news_page) = Some 100"
    using at_60s by (simp only: present option.map)
  moreover have "resultBox (renderJob 60000 (Some job_done) news_page) = Some False"
    using at_60s by (simp only: present option.map)
  ultimately show ?thesis
    by (intro conjI)
qed

section \<open>Properties of the withdrawal form\<close>









section \<open>Properties of the scan overlay\<close>

lemma doScan_in_flight: "scanInFlight s \<Longrightarrow> doScan v random now s = s"
  by (simp add: doScan_def)

lemma finalize_runs:
  "runs (finalize v i s) =
     (case runs s i of None \<Rightarrow> runs s | Some r \<Rightarrow> (runs s)(i \<mapsto> r\<lparr>close_pending := True\<rparr>))"
  by (simp add: finalize_def Let_def split: option.splits variant.splits)

lemma finalize_flag: "scanInFlight (finalize v i s) = scanInFlight s"
  by (simp add: finalize_def Let_def split: option.splits variant.splits)

lemma tick_flag: "scanInFlight (tick v i now s) = scanInFlight s"
  by (simp add: tick_def Let_def finalize_flag split: option.splits)

lemma settle_flag: "scanInFlight (settle v i resp s) = scanInFlight s"
  by (simp add: settle_def Let_def finalize_flag split: option.splits animation.splits)

lemma finalize_run:
  "runs (finalize v i s) j =
     (if j = i then map_option (\<lambda>r. r\<lparr>close_pending := True\<rparr>) (runs s i) else runs s j)"
  by (simp add: finalize_runs split: option.splits)

lemma tick_other: "j \<noteq> i \<Longrightarrow> runs (tick v i now s) j = runs s j"
  by (simp add: tick_def Let_def finalize_run split: option.splits)

lemma tick_self:
  assumes "runs s i = Some r"
  shows "\<exists>r'. runs (tick v i now s) i = Some r' \<and>
          start r' = start r \<and> totalMs r' = totalMs r \<and> req_settled r' = req_settled r \<and>
          payload_var r' = payload_var r \<and>
          (if anim r \<noteq> Running then r' = r
           else if now - start r < totalMs r
           then anim r' = Running \<and> close_pending r' = close_pending r
           else anim r' = Elapsed now \<and> close_pending r' = (req_settled r \<or> close_pending r))"
  using assms by (simp add: tick_def Let_def finalize_run)

lemma settle_other: "j \<noteq> i \<Longrightarrow> runs (settle v i resp s) j = runs s j"
  by (simp add: settle_def Let_def finalize_run split: option.splits animation.splits)

lemma settle_self:
  assumes "runs s i = Some r"
  shows "\<exists>r'. runs (settle v i resp s) i = Some r' \<and>
          start r' = start r \<and> totalMs r' = totalMs r \<and> anim r' = anim r \<and>
          (if req_settled r then r' = r
           else req_settled r' \<and> payload_var r' \<noteq> None \<and>
                close_pending r' = (anim r \<noteq> Running \<or> close_pending r))"
  using assms by (simp add: settle_def Let_def finalize_run split: animation.splits)

lemma tick_none: "runs s i = None \<Longrightarrow> tick v i now s = s"
  by (simp add: tick_def)

lemma settle_none: "runs s i = None \<Longrightarrow> settle v i resp s = s"
  by (simp add: settle_def)

lemma scan_inv_doScan: "scan_inv s \<Longrightarrow> scan_inv (doScan v random now s)"
  by (auto simp: scan_inv_def doScan_def run_ok_def)

lemma scan_inv_update:
  assumes "scan_inv s" and "runs s i = Some r" and "runs s' i = Some r'"
    and "\<forall>j. j \<noteq> i \<longrightarrow> runs s' j = runs s j"
    and "scanInFlight s' = scanInFlight s" and "run_ok r'"
  shows "scan_inv s'"
proof -
  have same: "runs s j \<noteq> None" if "runs s' j \<noteq> None" for j
    using that assms(2,4) by (cases "j = i") simp_all
  have one: "\<forall>j k. runs s' j \<noteq> None \<longrightarrow> runs s' k \<noteq> None \<longrightarrow> j = k"
  proof (intro allI impI)
    fix j k assume "runs s' j \<noteq> None" "runs s' k \<noteq> None"
    then have "runs s j \<noteq> None" "runs s k \<noteq> None" by (simp_all add: same)
    then show "j = k" using assms(1) unfolding scan_inv_def by blast
  qed
  have flag: "\<forall>j. runs s' j \<noteq> None \<longrightarrow> scanInFlight s'"
  proof (intro allI impI)
    fix j assume "runs s' j \<noteq> None"
    then have "runs s j \<noteq> None" by (simp add: same)
    then have "scanInFlight s" using assms(1) unfolding scan_inv_def by blast
    then show "scanInFlight s'" using assms(5) by simp
  qed
  have ok: "\<forall>j q. runs s' j = Some q \<longrightarrow> run_ok q"
  proof (intro allI impI)
    fix j q assume q: "runs s' j = Some q"
    show "run_ok q"
    proof (cases "j = i")
      case True
      then show ?thesis using q assms(3,6) by simp
    next
      case False
      then have "runs s j = Some q" using q assms(4) by simp
      then show ?thesis using assms(1) unfolding scan_inv_def by blast
    qed
  qed
  show ?thesis unfolding scan_inv_def using one flag ok by blast
qed

lemma scan_inv_tick:
  assumes "scan_inv s"
  shows "scan_inv (tick v i now s)"
proof (cases "runs s i")
  case None
  then show ?thesis using assms by (simp add: tick_none)
next
  case (Some r)
  from tick_self [OF Some, of v now] obtain r' where r':
    "runs (tick v i now s) i = Some r'"
    "start r' = start r" "totalMs r' = totalMs r" "req_settled r' = req_settled r"
    "if anim r \<noteq> Running then r' = r
     else if now - start r < totalMs r
          then anim r' = Running \<and> close_pending r' = close_pending r
          else anim r' = Elapsed now \<and> close_pending r' = (req_settled r \<or> close_pending r)"
    "payload_var r' = payload_var r"
    by blast
  have "run_ok r" using assms Some by (simp add: scan_inv_def)
  then have "run_ok r'" using r'(2-) by (auto simp: run_ok_def split: if_splits)
  then show ?thesis
    using scan_inv_update [OF assms Some r'(1) _ tick_flag] tick_other by simp
qed

lemma scan_inv_settle:
  assumes "scan_inv s"
  shows "scan_inv (settle v i resp s)"
proof (cases "runs s i")
  case None
  then show ?thesis using assms by (simp add: settle_none)
next
  case (Some r)
  from settle_self [OF Some, of v resp] obtain r' where r':
    "runs (settle v i resp s) i = Some r'"
    "start r' = start r" "totalMs r' = totalMs r" "anim r' = anim r"
    "if req_settled r then r' = r
     else req_settled r' \<and> payload_var r' \<noteq> None \<and>
          close_pending r' = (anim r \<noteq> Running \<or> close_pending r)"
    by blast
  have "run_ok r" using assms Some by (simp add: scan_inv_def)
  then have "run_ok r'" using r'(2-) by (auto simp: run_ok_def split: if_splits)
  then show ?thesis
    using scan_inv_update [OF assms Some r'(1) _ settle_flag] settle_other by simp
qed

lemma close_overlay_runs:
  "runs (close_overlay i s) j = None \<or> runs (close_overlay i s) j = runs s j"
  by (simp add: close_overlay_def split: option.splits)

lemma close_overlay_flag:
  "runs (close_overlay i s) j \<noteq> None \<Longrightarrow> scan_inv s \<Longrightarrow> scanInFlight (close_overlay i s)"
  unfolding scan_inv_def close_overlay_def
  by (cases "runs s i"; cases "j = i") (auto split: if_splits)

lemma scan_inv_close:
  assumes "scan_inv s"
  shows "scan_inv (close_overlay i s)"
proof -
  let ?s = "close_overlay i s"
  have same: "runs s j = runs ?s j" if "runs ?s j \<noteq> None" for j
    using that close_overlay_runs [of i s j] by auto
  have "\<forall>j k. runs ?s j \<noteq> None \<longrightarrow> runs ?s k \<noteq> None \<longrightarrow> j = k"
  proof (intro allI impI)
    fix j k assume "runs ?s j \<noteq> None" "runs ?s k \<noteq> None"
    then have "runs s j \<noteq> None" "runs s k \<noteq> None" using same by metis+
    then show "j = k" using assms unfolding scan_inv_def by blast
  qed
  moreover have "\<forall>j. runs ?s j \<noteq> None \<longrightarrow> scanInFlight ?s"
    using close_overlay_flag assms by blast
  moreover have "\<forall>j q. runs ?s j = Some q \<longrightarrow> run_ok q"
  proof (intro allI impI)
    fix j q assume "runs ?s j = Some q"
    then have "runs s j = Some q" using same [of j] by simp
    then show "run_ok q" using assms unfolding scan_inv_def by blast
  qed
  ultimately show ?thesis unfolding scan_inv_def by blast
qed

lemma scan_inv_step: "scan_inv s \<Longrightarrow> scan_inv (scan_step v e s)"
  by (cases e) (simp_all add: scan_step_def scan_inv_doScan scan_inv_tick scan_inv_settle scan_inv_close)

lemma scan_reachable_inv: "scan_reachable v s \<Longrightarrow> scan_inv s"
proof (induction rule: scan_reachable.induct)
  case (loaded s)
  then show ?case by (simp add: scan_inv_def)
next
  case (after s e)
  then show ?case by (simp add: scan_inv_step)
qed

lemma doScan_quiet:
  assumes "scan_inv s"
  shows "\<not> finalization_effect s (doScan v random now s)"
proof (cases "scanInFlight s")
  case True
  then show ?thesis by (simp add: doScan_def finalization_effect_def)
next
  case False
  then have none: "runs s j = None" for j using assms unfolding scan_inv_def by blast
  show ?thesis
    using False none
    by (auto simp: doScan_def finalization_effect_def final_text_def split: if_splits)
qed

lemma close_quiet: "\<not> finalization_effect s (close_overlay i s)"
  by (auto simp: close_overlay_def finalization_effect_def split: option.splits if_splits)

lemma tick_quiet:
  assumes "runs s i = Some r" and "now - start r < totalMs r \<or> \<not> req_settled r \<or> anim r \<noteq> Running"
  shows "\<not> finalization_effect s (tick v i now s)"
  using assms
  by (auto simp: tick_def Let_def finalization_effect_def final_text_def split: if_splits variant.splits)

lemma settle_quiet:
  assumes "runs s i = Some r" and "anim r = Running \<or> req_settled r"
  shows "\<not> finalization_effect s (settle v i resp s)"
  using assms
  by (auto simp: settle_def Let_def finalization_effect_def final_text_def split: if_splits)

lemma tick_joined:
  assumes "runs s i = Some r" and "anim r = Running" and "\<not> now - start r < totalMs r"
    and "req_settled r" and "payload_var r \<noteq> None"
  shows "joined (Frame i now) (tick v i now s)"
proof -
  from tick_self [OF assms(1), of v now] obtain r' where
    "runs (tick v i now s) i = Some r'" "start r' = start r" "totalMs r' = totalMs r"
    "req_settled r' = req_settled r" "payload_var r' = payload_var r"
    "anim r' = Elapsed now" "close_pending r'"
    using assms by auto
  then show ?thesis
    using assms unfolding joined_def
    by (intro exI [of _ i] exI [of _ r'] exI [of _ now]) simp
qed

lemma settle_joined:
  assumes "runs s i = Some r" and "anim r = Elapsed t" and "\<not> req_settled r"
    and "totalMs r \<le> t - start r"
  shows "joined (Settles i resp) (settle v i resp s)"
proof -
  from settle_self [OF assms(1), of v resp] obtain r' where
    "runs (settle v i resp s) i = Some r'" "start r' = start r" "totalMs r' = totalMs r"
    "anim r' = anim r" "req_settled r'" "payload_var r' \<noteq> None" "close_pending r'"
    using assms by auto
  then show ?thesis
    using assms unfolding joined_def
    by (intro exI [of _ i] exI [of _ r'] exI [of _ t]) auto
qed

lemma step_joined:
  assumes "scan_inv s" and "finalization_effect s (scan_step v e s)"
  shows "joined e (scan_step v e s)"
proof (cases e)
  case (Trigger random now)
  then show ?thesis using assms doScan_quiet by (simp add: scan_step_def)
next
  case (Timeout_fires i)
  then show ?thesis using assms close_quiet by (simp add: scan_step_def)
next
  case (Frame i now)
  then have eff: "finalization_effect s (tick v i now s)"
    using assms by (simp add: scan_step_def)
  then obtain r where r: "runs s i = Some r"
    by (cases "runs s i") (auto simp: tick_none finalization_effect_def)
  have "\<not> (now - start r < totalMs r \<or> \<not> req_settled r \<or> anim r \<noteq> Running)"
    using eff tick_quiet [OF r] by blast
  moreover have "payload_var r \<noteq> None" if "req_settled r"
    using that assms(1) r by (simp add: scan_inv_def run_ok_def)
  ultimately have "joined (Frame i now) (tick v i now s)"
    using tick_joined [OF r] by simp
  then show ?thesis using Frame by (simp add: scan_step_def)
next
  case (Settles i resp)
  then have eff: "finalization_effect s (settle v i resp s)"
    using assms by (simp add: scan_step_def)
  then obtain r where r: "runs s i = Some r"
    by (cases "runs s i") (auto simp: settle_none finalization_effect_def)
  have no: "\<not> (anim r = Running \<or> req_settled r)"
    using eff settle_quiet [OF r] by blast
  then obtain t where t: "anim r = Elapsed t" by (cases "anim r") auto
  have "totalMs r \<le> t - start r"
    using assms(1) r t by (simp add: scan_inv_def run_ok_def)
  then have "joined (Settles i resp) (settle v i resp s)"
    using settle_joined [OF r t] no by simp
  then show ?thesis using Settles by (simp add: scan_step_def)
qed

lemma scan_examples_reachable:
  "scan_reachable Long_eased scan_loaded" "scan_reachable Long_eased scan_clicked"
  "scan_reachable Long_eased scan_answered" "scan_reachable Long_eased scan_halfway"
proof -
  show loaded: "scan_reachable Long_eased scan_loaded"
    by (rule scan_reachable.loaded) (simp_all add: scan_loaded_def)
  then show clicked: "scan_reachable Long_eased scan_clicked"
    unfolding scan_clicked_def by (rule scan_reachable.after)
  then show answered: "scan_reachable Long_eased scan_answered"
    unfolding scan_answered_def by (rule scan_reachable.after)
  then show "scan_reachable Long_eased scan_halfway"
    unfolding scan_halfway_def by (rule scan_reachable.after)
qed

lemmas scan_example_defs =
  scan_halfway_def scan_answered_def scan_clicked_def scan_loaded_def scan_found_def
  scan_step_def doScan_def settle_def tick_def finalize_def Let_def base_ms_def spread_ms_def
  empty_payload_def js_round_def floor_eq_iff updateCountsWallet_def renderAll_def
  dash_example_def

text \<open>
  Claim C1. While \<^verbatim>\<open>scanInFlight\<close> is set, \<^verbatim>\<open>doScan\<close> returns the page as it found it:
  no request is counted, the overlay and every other field are untouched. On every page
  reachable from a freshly loaded one, at most one invocation still waits for its frames,
  its response or its timeout, and the flag is set as long as one does.
\<close>

theorem scan_at_most_one_in_flight:
  "(scanInFlight s \<longrightarrow> doScan v random now s = s) \<and>
   (scan_reachable v s \<longrightarrow>
      (\<forall>i j. runs s i \<noteq> None \<longrightarrow> runs s j \<noteq> None \<longrightarrow> i = j) \<and>
      (\<forall>i. runs s i \<noteq> None \<longrightarrow> scanInFlight s))"
proof (intro conjI impI)
  assume "scanInFlight s"
  then show "doScan v random now s = s" by (rule doScan_in_flight)
next
  assume "scan_reachable v s"
  then have "scan_inv s" by (rule scan_reachable_inv)
  then show "\<forall>i j. runs s i \<noteq> None \<longrightarrow> runs s j \<noteq> None \<longrightarrow> i = j"
    unfolding scan_inv_def by blast
next
  assume "scan_reachable v s"
  then have "scan_inv s" by (rule scan_reachable_inv)
  then show "\<forall>i. runs s i \<noteq> None \<longrightarrow> scanInFlight s"
    unfolding scan_inv_def by blast
qed

theorem scan_at_most_one_in_flight_witness:
  "scanInFlight scan_clicked \<and> scan_requests scan_clicked = 1 \<and>
   doScan Long_eased (1 / 4) 5000 scan_clicked = scan_clicked \<and>
   scan_requests (doScan Long_eased (1 / 4) 5000 scan_clicked) = 1 \<and>
   runs scan_clicked 0 \<noteq> None \<and> runs scan_clicked 1 = None"
proof -
  have flag: "scanInFlight scan_clicked" and count: "scan_requests scan_clicked = 1"
    and live: "runs scan_clicked 0 \<noteq> None" "runs scan_clicked 1 = None"
    by (simp_all add: scan_example_defs)
  have again: "doScan Long_eased (1 / 4) 5000 scan_clicked = scan_clicked"
    using scan_at_most_one_in_flight [of scan_clicked Long_eased "1 / 4" 5000] flag by simp
  show ?thesis
    using flag count live again by simp
qed

text \<open>
  Claim C2. On every reachable page, an invocation whose close timeout is pending (the
  \<^verbatim>\<open>finally\<close> callback has run) has a settled request and an animation that ended in a
  frame at least \<^verbatim>\<open>totalMs\<close> after \<^verbatim>\<open>start\<close>. A step that has any effect of the
  finalization is a frame or a response after which both hold. One of the two alone has
  none: neither a response while the animation runs, nor a frame, however late, while the
  request is pending.
\<close>

theorem scan_finalizes_only_after_both:
  assumes "scan_reachable v s"
  shows "(\<forall>i r. runs s i = Some r \<and> close_pending r \<longrightarrow>
            req_settled r \<and> (\<exists>t. anim r = Elapsed t \<and> totalMs r \<le> t - start r)) \<and>
         (finalization_effect s (scan_step v e s) \<longrightarrow> joined e (scan_step v e s)) \<and>
         (\<forall>i r. runs s i = Some r \<and> anim r = Running \<longrightarrow>
            \<not> finalization_effect s (settle v i resp s)) \<and>
         (\<forall>i r. runs s i = Some r \<and> \<not> req_settled r \<longrightarrow>
            \<not> finalization_effect s (tick v i now s))"
proof -
  have inv: "scan_inv s" using assms by (rule scan_reachable_inv)
  have "req_settled r \<and> (\<exists>t. anim r = Elapsed t \<and> totalMs r \<le> t - start r)"
    if run: "runs s i = Some r" and closing: "close_pending r" for i r
  proof -
    have ok: "run_ok r" using inv run unfolding scan_inv_def by blast
    then obtain t where "anim r = Elapsed t"
      using closing by (cases "anim r") (auto simp: run_ok_def)
    then show ?thesis using ok closing by (auto simp: run_ok_def)
  qed
  moreover have "finalization_effect s (scan_step v e s) \<longrightarrow> joined e (scan_step v e s)"
    using step_joined [OF inv] by blast
  moreover have "\<not> finalization_effect s (settle v i resp s)"
    if "runs s i = Some r" and "anim r = Running" for i r
    using settle_quiet [OF that(1)] that(2) by blast
  moreover have "\<not> finalization_effect s (tick v i now s)"
    if "runs s i = Some r" and "\<not> req_settled r" for i r
    using tick_quiet [OF that(1)] that(2) by blast
  ultimately show ?thesis by blast
qed

theorem scan_finalizes_only_after_both_witness:
  "\<not> finalization_effect scan_clicked scan_answered \<and>
   \<not> finalization_effect scan_answered scan_halfway \<and>
   scanStatus scan_halfway = Some (Stage 0) \<and>
   scanStatus (scan_step Long_eased (Frame 0 16000) scan_halfway) = Some (Found 3) \<and>
   joined (Frame 0 16000) (scan_step Long_eased (Frame 0 16000) scan_halfway)"
proof -
  let ?done = "scan_step Long_eased (Frame 0 16000) scan_halfway"
  have r0: "runs scan_clicked 0 =
      Some \<lparr>start = 0, totalMs = 16000, payload_var = None, stepIdx = 0, anim = Running,
            req_settled = False, close_pending = False\<rparr>"
    by (simp add: scan_example_defs)
  have r1: "runs scan_answered 0 =
      Some \<lparr>start = 0, totalMs = 16000, payload_var = Some scan_found, stepIdx = 0,
            anim = Running, req_settled = True, close_pending = False\<rparr>"
    by (simp add: scan_example_defs)
  have early: "\<not> finalization_effect scan_clicked scan_answered"
    using scan_finalizes_only_after_both
      [OF scan_examples_reachable(2), of "Frame 0 16000" "Http 200 (Some scan_found)" 0]
      r0
    by (simp add: scan_answered_def scan_step_def)
  have halfway: "\<not> finalization_effect scan_answered scan_halfway"
    using tick_quiet [OF r1, of 8000 Long_eased]
    by (simp add: scan_halfway_def scan_step_def)
  have before: "scanStatus scan_halfway = Some (Stage 0)"
    by (simp add: scan_example_defs)
  have caption: "scanStatus ?done = Some (Found 3)"
    by (simp add: scan_example_defs)
  then have "finalization_effect scan_halfway ?done"
    using before by (simp add: finalization_effect_def final_text_def)
  then have "joined (Frame 0 16000) ?done"
    using scan_finalizes_only_after_both [OF scan_examples_reachable(4), of "Frame 0 16000"]
    by blast
  then show ?thesis
    using early halfway before caption by simp
qed

section \<open>Properties of the row action controller\<close>

lemma same_timers_refl [simp]: "same_timers s s"
  by (simp add: same_timers_def)

lemma same_net_refl [simp]: "same_net s s"
  by (simp add: same_net_def)

lemma same_timers_trans: "same_timers s s' \<Longrightarrow> same_timers s' s'' \<Longrightarrow> same_timers s s''"
  by (simp add: same_timers_def)

lemma same_net_trans: "same_net s s' \<Longrightarrow> same_net s' s'' \<Longrightarrow> same_net s s''"
  by (simp add: same_net_def)

lemma on_row_same [simp]: "same_timers s (on_row rw f s)" "same_net s (on_row rw f s)"
  by (simp_all add: on_row_def same_timers_def same_net_def)

lemma hide_mini_same [simp]: "same_timers s (hide_mini rw s)" "same_net s (hide_mini rw s)"
  by (simp_all add: hide_mini_def)

lemma finalizeResolve_same [simp]:
  "same_timers s (finalizeResolve rw p s)" "same_net s (finalizeResolve rw p s)"
  by (simp_all add: finalizeResolve_def hide_mini_def on_row_def same_timers_def same_net_def)

lemma finalizeArchive_same [simp]:
  "same_timers s (finalizeArchive rw s)" "same_net s (finalizeArchive rw s)"
  by (simp_all add: finalizeArchive_def hide_mini_def on_row_def same_timers_def same_net_def)

lemma refreshFromPayload_same [simp]:
  "same_timers s (refreshFromPayload p s)" "same_net s (refreshFromPayload p s)"
  by (simp_all add: refreshFromPayload_def same_timers_def same_net_def)

lemma stopTimerForRow_same_net [simp]: "same_net s (stopTimerForRow k s)"
  by (simp add: stopTimerForRow_def same_net_def split: option.splits)

lemma startMiniCountdown_same_net [simp]: "same_net s (startMiniCountdown rw k n od now s)"
  by (simp add: startMiniCountdown_def Let_def same_net_def on_row_def stopTimerForRow_def
      split: option.splits)

lemma resume_same_net [simp]: "same_net s (resume k settled now s)"
  by (simp add: resume_def split: handler.splits option.splits)

lemma apiResolve_same_timers [simp]: "same_timers s (apiResolve g pid a k i s)"
  by (simp add: apiResolve_def same_timers_def)

lemma apiResolve_call_same_timers [simp]: "same_timers s (apiResolve_call g pid k s)"
  by (simp add: apiResolve_call_def apiResolve_def same_timers_def)

lemma apiRemaining_same_timers [simp]: "same_timers s (apiRemaining pid rw k s)"
  by (simp add: apiRemaining_def same_timers_def)

lemma apiArchive_same_timers [simp]: "same_timers s (apiArchive pid rw s)"
  by (simp add: apiArchive_def same_timers_def)

lemma apiUnarchive_same_timers [simp]: "same_timers s (apiUnarchive pid s)"
  by (simp add: apiUnarchive_def same_timers_def)

lemma run_onDone_same_timers [simp]: "same_timers s (run_onDone g od s)"
  by (simp add: run_onDone_def split: on_done.splits)

lemma clear_task_same_timers [simp]: "same_timers s (s\<lparr>tasks := t\<rparr>)"
  by (simp add: same_timers_def)

lemma timers_inv_same: "same_timers s s' \<Longrightarrow> timers_inv s \<Longrightarrow> timers_inv s'"
  by (simp add: same_timers_def timers_inv_def)

lemma timers_inv_positive: "timers_inv s \<Longrightarrow> rowTimers s k = Some h \<Longrightarrow> 0 < h"
  unfolding timers_inv_def by blast

lemma timers_inv_stopTimerForRow:
  assumes "timers_inv s"
  shows "timers_inv (stopTimerForRow k s)"
proof (cases "rowTimers s k")
  case None
  then show ?thesis using assms by (simp add: stopTimerForRow_def)
next
  case (Some t)
  then have pos: "0 < t" using assms by (rule timers_inv_positive [rotated])
  let ?s = "s\<lparr>intervals := (intervals s)(t := None), rowTimers := (rowTimers s)(k := None)\<rparr>"
  have eq: "stopTimerForRow k s = ?s" using Some pos by (simp add: stopTimerForRow_def)
  obtain c where c: "intervals s t = Some c" "cd_rowId c = k"
    using assms Some unfolding timers_inv_def by blast
  have A: "0 < next_handle ?s" using assms by (simp add: timers_inv_def)
  have B: "\<forall>k' h. rowTimers ?s k' = Some h \<longrightarrow>
             (\<exists>c. intervals ?s h = Some c \<and> cd_rowId c = k')"
  proof (intro allI impI)
    fix k' h assume "rowTimers ?s k' = Some h"
    then have k': "k' \<noteq> k" "rowTimers s k' = Some h" by (auto split: if_splits)
    then obtain c' where c': "intervals s h = Some c'" "cd_rowId c' = k'"
      using assms unfolding timers_inv_def by blast
    have "h \<noteq> t" using c c' k' by auto
    then show "\<exists>c. intervals ?s h = Some c \<and> cd_rowId c = k'" using c' by simp
  qed
  have C: "\<forall>h c'. intervals ?s h = Some c' \<longrightarrow>
             0 < h \<and> h < next_handle ?s \<and> rowTimers ?s (cd_rowId c') = Some h"
  proof (intro allI impI)
    fix h c' assume "intervals ?s h = Some c'"
    then have h: "h \<noteq> t" "intervals s h = Some c'" by (auto split: if_splits)
    then have old: "0 < h" "h < next_handle s" "rowTimers s (cd_rowId c') = Some h"
      using assms unfolding timers_inv_def by blast+
    have "cd_rowId c' \<noteq> k" using old(3) Some h(1) by auto
    then show "0 < h \<and> h < next_handle ?s \<and> rowTimers ?s (cd_rowId c') = Some h"
      using old by simp
  qed
  have "timers_inv ?s" unfolding timers_inv_def using A B C by blast
  then show ?thesis using eq by simp
qed

lemma stopTimerForRow_stopped:
  assumes "timers_inv s"
  shows "rowTimers (stopTimerForRow k s) k = None"
proof (cases "rowTimers s k")
  case None
  then show ?thesis by (simp add: stopTimerForRow_def)
next
  case (Some t)
  then have "0 < t" using assms by (rule timers_inv_positive [rotated])
  then show ?thesis using Some by (simp add: stopTimerForRow_def)
qed

lemma stopTimerForRow_next_handle [simp]: "next_handle (stopTimerForRow k s) = next_handle s"
  by (simp add: stopTimerForRow_def split: option.splits)

lemma timers_inv_register:
  assumes "timers_inv s" and "rowTimers s k = None" and "cd_rowId c = k"
  shows "timers_inv (s\<lparr>intervals := (intervals s)(next_handle s \<mapsto> c),
                        next_handle := Suc (next_handle s),
                        rowTimers := (rowTimers s)(k \<mapsto> next_handle s)\<rparr>)"
    (is "timers_inv ?s")
proof -
  have fresh: "intervals s (next_handle s) = None"
  proof (cases "intervals s (next_handle s)")
    case (Some c')
    then have "next_handle s < next_handle s" using assms(1) unfolding timers_inv_def by blast
    then show ?thesis by simp
  qed simp
  have A: "0 < next_handle ?s" by simp
  have B: "\<forall>k' h. rowTimers ?s k' = Some h \<longrightarrow>
             (\<exists>c'. intervals ?s h = Some c' \<and> cd_rowId c' = k')"
  proof (intro allI impI)
    fix k' h assume a: "rowTimers ?s k' = Some h"
    show "\<exists>c'. intervals ?s h = Some c' \<and> cd_rowId c' = k'"
    proof (cases "k' = k")
      case True
      then show ?thesis using a assms(3) by simp
    next
      case False
      then have old: "rowTimers s k' = Some h" using a by simp
      then obtain c' where c': "intervals s h = Some c'" "cd_rowId c' = k'"
        using assms(1) unfolding timers_inv_def by blast
      then have "h \<noteq> next_handle s" using fresh by auto
      then show ?thesis using c' by simp
    qed
  qed
  have C: "\<forall>h c'. intervals ?s h = Some c' \<longrightarrow>
             0 < h \<and> h < next_handle ?s \<and> rowTimers ?s (cd_rowId c') = Some h"
  proof (intro allI impI)
    fix h c' assume a: "intervals ?s h = Some c'"
    show "0 < h \<and> h < next_handle ?s \<and> rowTimers ?s (cd_rowId c') = Some h"
    proof (cases "h = next_handle s")
      case True
      then have "c' = c" using a by simp
      then show ?thesis using True assms(1,3) by (simp add: timers_inv_def)
    next
      case False
      then have old: "intervals s h = Some c'" using a by simp
      then have o: "0 < h" "h < next_handle s" "rowTimers s (cd_rowId c') = Some h"
        using assms(1) unfolding timers_inv_def by blast+
      then have "cd_rowId c' \<noteq> k" using assms(2) by auto
      then show ?thesis using o by simp
    qed
  qed
  show ?thesis unfolding timers_inv_def using A B C by blast
qed

lemma timers_inv_startMiniCountdown:
  assumes "timers_inv s"
  shows "timers_inv (startMiniCountdown rw k n od now s)"
proof -
  let ?s1 = "on_row rw (with_mini (\<lambda>m. \<lparr>mini_hidden = False, mini_fill = 0,
                                           mini_txt = Txt_countdown n\<rparr>)) s"
  let ?s2 = "stopTimerForRow k ?s1"
  have "timers_inv ?s1" using assms on_row_same(1) timers_inv_same by blast
  then have inv2: "timers_inv ?s2" and none: "rowTimers ?s2 k = None"
    by (simp_all add: timers_inv_stopTimerForRow stopTimerForRow_stopped)
  show ?thesis
    unfolding startMiniCountdown_def Let_def
    by (rule timers_inv_register [OF inv2 none]) simp
qed

lemma timers_inv_resume:
  assumes "timers_inv s"
  shows "timers_inv (resume k settled now s)"
  using assms timers_inv_same [OF hide_mini_same(1)] timers_inv_same [OF finalizeResolve_same(1)]
  by (simp add: resume_def timers_inv_startMiniCountdown split: handler.splits option.splits)

lemma interval_tick_idle: "intervals s h = None \<Longrightarrow> interval_tick g h now s = s"
  by (simp add: interval_tick_def)

lemma interval_tick_running:
  assumes "intervals s h = Some c" and "0 < seconds_left (cd_total c) (cd_start c) now"
  shows "same_timers s (interval_tick g h now s) \<and> same_net s (interval_tick g h now s)"
  using assms by (simp add: interval_tick_def Let_def)

lemma interval_tick_done:
  assumes "intervals s h = Some c" and "seconds_left (cd_total c) (cd_start c) now \<le> 0"
    and "timers_inv s"
  shows "\<exists>f f'. interval_tick g h now s =
           (case cd_onDone c of
              None \<Rightarrow> on_row (cd_row c) f' (stopTimerForRow (cd_rowId c) (on_row (cd_row c) f s))
            | Some od \<Rightarrow>
                run_onDone g od
                  (on_row (cd_row c) f' (stopTimerForRow (cd_rowId c) (on_row (cd_row c) f s))))"
proof -
  have reg: "rowTimers s (cd_rowId c) = Some h" and pos: "0 < h"
    using assms(1,3) unfolding timers_inv_def by blast+
  let ?f = "with_mini (\<lambda>m.
                     m\<lparr>mini_fill :=
                          (if cd_total c = 0 then mini_fill m
                           else of_int (min 100 (js_round
                                  (of_int (cd_total c - seconds_left (cd_total c) (cd_start c) now)
                                     / of_int (cd_total c) * 100)))),
                       mini_txt := Txt_countdown (seconds_left (cd_total c) (cd_start c) now)\<rparr>)"
  let ?f' = "with_mini (\<lambda>m. m\<lparr>mini_txt := Txt_resolving\<rparr>)"
  have "interval_tick g h now s =
           (case cd_onDone c of
              None \<Rightarrow> on_row (cd_row c) ?f' (stopTimerForRow (cd_rowId c) (on_row (cd_row c) ?f s))
            | Some od \<Rightarrow>
                run_onDone g od
                  (on_row (cd_row c) ?f' (stopTimerForRow (cd_rowId c) (on_row (cd_row c) ?f s))))"
    using assms(1,2) reg pos
    by (simp add: interval_tick_def Let_def stopTimerForRow_def on_row_def split: option.splits)
  then show ?thesis by blast
qed

lemma timers_inv_interval_tick:
  assumes "timers_inv s"
  shows "timers_inv (interval_tick g h now s)"
proof (cases "intervals s h")
  case None
  then show ?thesis using assms by (simp add: interval_tick_idle)
next
  case (Some c)
  show ?thesis
  proof (cases "0 < seconds_left (cd_total c) (cd_start c) now")
    case True
    then show ?thesis using interval_tick_running [OF Some True] assms timers_inv_same by blast
  next
    case False
    then have "seconds_left (cd_total c) (cd_start c) now \<le> 0" by simp
    from interval_tick_done [OF Some this assms, of g] obtain f f' where
      eq: "interval_tick g h now s =
           (case cd_onDone c of
              None \<Rightarrow> on_row (cd_row c) f' (stopTimerForRow (cd_rowId c) (on_row (cd_row c) f s))
            | Some od \<Rightarrow>
                run_onDone g od
                  (on_row (cd_row c) f' (stopTimerForRow (cd_rowId c) (on_row (cd_row c) f s))))"
      by blast
    have "timers_inv (on_row (cd_row c) f s)"
      using assms timers_inv_same on_row_same(1) by blast
    then have "timers_inv (stopTimerForRow (cd_rowId c) (on_row (cd_row c) f s))"
      by (rule timers_inv_stopTimerForRow)
    then have base: "timers_inv (on_row (cd_row c) f' (stopTimerForRow (cd_rowId c)
        (on_row (cd_row c) f s)))"
      using timers_inv_same on_row_same(1) by blast
    show ?thesis
    proof (cases "cd_onDone c")
      case None
      then show ?thesis using eq base by simp
    next
      case (Some od)
      then show ?thesis
        using eq base timers_inv_same [OF run_onDone_same_timers] by simp
    qed
  qed
qed

lemma timers_inv_handleResolve: "timers_inv s \<Longrightarrow> timers_inv (handleResolve b s)"
  using timers_inv_same [OF apiRemaining_same_timers]
  by (simp add: handleResolve_def Let_def timers_inv_stopTimerForRow split: option.splits)

lemma timers_inv_handleArchive: "timers_inv s \<Longrightarrow> timers_inv (handleArchive b s)"
  using timers_inv_same [OF apiArchive_same_timers]
  by (simp add: handleArchive_def Let_def timers_inv_stopTimerForRow split: option.splits)

lemma timers_inv_handleUnarchive: "timers_inv s \<Longrightarrow> timers_inv (handleUnarchive pid s)"
  using timers_inv_same [OF apiUnarchive_same_timers]
  by (simp add: handleUnarchive_def)

lemma timers_inv_clear: "timers_inv s \<Longrightarrow> timers_inv (s\<lparr>tasks := t\<rparr>)"
  by (simp add: timers_inv_def)

lemma timers_inv_resolve_settles:
  "timers_inv s \<Longrightarrow> timers_inv (resolve_settles i pid a k resp now s)"
  by (simp add: resolve_settles_def Let_def timers_inv_resume timers_inv_clear
      split: response.splits)

lemma timers_inv_remaining_settles:
  "timers_inv s \<Longrightarrow> timers_inv (remaining_settles g i rw k pid resp now s)"
  using timers_inv_same [OF apiResolve_call_same_timers]
  by (simp add: remaining_settles_def Let_def timers_inv_startMiniCountdown timers_inv_clear
      split: response.splits option.splits)

lemma timers_inv_archive_settles:
  "timers_inv s \<Longrightarrow> timers_inv (archive_settles i rw resp s)"
  using timers_inv_same [OF refreshFromPayload_same(1)] timers_inv_same [OF finalizeArchive_same(1)]
  by (simp add: archive_settles_def Let_def timers_inv_clear split: response.splits option.splits)

lemma timers_inv_unarchive_settles:
  "timers_inv s \<Longrightarrow> timers_inv (unarchive_settles i resp s)"
  using timers_inv_same [OF refreshFromPayload_same(1)]
  by (simp add: unarchive_settles_def Let_def timers_inv_clear split: response.splits option.splits)

lemma timers_inv_step: "timers_inv s \<Longrightarrow> timers_inv (step g e s)"
  using timers_inv_same [OF apiResolve_same_timers]
  by (cases e)
    (simp_all add: step_def timers_inv_handleResolve timers_inv_handleArchive
      timers_inv_handleUnarchive timers_inv_resolve_settles timers_inv_remaining_settles
      timers_inv_archive_settles timers_inv_unarchive_settles timers_inv_interval_tick
      split: option.splits task.splits)

lemma reachable_timers_inv: "reachable g s \<Longrightarrow> timers_inv s"
proof (induction rule: reachable.induct)
  case (start s)
  then show ?case by (simp add: page_loaded_def timers_inv_def)
next
  case (step s e)
  then show ?case by (simp add: timers_inv_step)
qed

lemma calls_of_simps [simp]:
  "calls_of i [] = 0"
  "calls_of i (rs @ [Post_resolve j pid key a]) = (if j = i then Suc (calls_of i rs) else calls_of i rs)"
  "calls_of i (rs @ [Get_remaining pid]) = calls_of i rs"
  "calls_of i (rs @ [Post_archive pid]) = calls_of i rs"
  "calls_of i (rs @ [Post_unarchive pid]) = calls_of i rs"
  by (simp_all add: calls_of_def)

lemma attempts_of_simps [simp]:
  "attempts_of [] = []"
  "attempts_of (rs @ [Post_resolve j pid key a]) = attempts_of rs @ [a]"
  "attempts_of (rs @ [Get_remaining pid]) = attempts_of rs"
  "attempts_of (rs @ [Post_archive pid]) = attempts_of rs"
  "attempts_of (rs @ [Post_unarchive pid]) = attempts_of rs"
  by (simp_all add: attempts_of_def)

lemma task_ok_weaken: "task_ok n t \<Longrightarrow> task_ok n None"
  by (auto simp: task_ok_def split: option.splits task.splits)

lemma retry_inv_same: "same_net s s' \<Longrightarrow> retry_inv s \<Longrightarrow> retry_inv s'"
  by (simp add: same_net_def retry_inv_def)

lemma retry_inv_clear:
  assumes "retry_inv s"
  shows "retry_inv (s\<lparr>tasks := (tasks s)(i := None)\<rparr>)"
  using assms task_ok_weaken unfolding retry_inv_def by auto

lemma retry_inv_fresh:
  assumes "retry_inv s" and "\<forall>d pid a k. t \<noteq> Resolve_fetch pid a k \<and> t \<noteq> Resolve_backoff d pid a k"
    and "\<forall>i. calls_of i rs = calls_of i (sent s)" and "attempts_of rs = attempts_of (sent s)"
  shows "retry_inv (s\<lparr>sent := rs, tasks := (tasks s)(next_task s \<mapsto> t),
                       next_task := Suc (next_task s)\<rparr>)"
proof -
  have "task_ok 0 (Some t)" using assms(2) by (cases t) (auto simp: task_ok_def)
  then show ?thesis using assms(1,3,4) unfolding retry_inv_def by auto
qed

lemma retry_inv_apiRemaining: "retry_inv s \<Longrightarrow> retry_inv (apiRemaining pid rw k s)"
  unfolding apiRemaining_def by (rule retry_inv_fresh) simp_all

lemma retry_inv_apiArchive: "retry_inv s \<Longrightarrow> retry_inv (apiArchive pid rw s)"
  unfolding apiArchive_def by (rule retry_inv_fresh) simp_all

lemma retry_inv_apiUnarchive: "retry_inv s \<Longrightarrow> retry_inv (apiUnarchive pid s)"
  unfolding apiUnarchive_def by (rule retry_inv_fresh) simp_all

lemma retry_inv_apiResolve_call:
  assumes "retry_inv s"
  shows "retry_inv (apiResolve_call g pid k s)"
proof -
  have fresh: "calls_of (next_task s) (sent s) = 0" using assms unfolding retry_inv_def by blast
  show ?thesis
    using assms fresh unfolding retry_inv_def apiResolve_call_def apiResolve_def
    by (auto simp: task_ok_def)
qed

lemma retry_inv_backoff:
  assumes "retry_inv s" and "tasks s i = Some (Resolve_fetch pid a k)" and "a < 2"
  shows "retry_inv (s\<lparr>tasks := (tasks s)(i \<mapsto> Resolve_backoff (150 * (a + 1)) pid (a + 1) k)\<rparr>)"
proof -
  have "task_ok (calls_of i (sent s)) (tasks s i)" using assms(1) unfolding retry_inv_def by blast
  then have "calls_of i (sent s) = Suc a" using assms(2) by (simp add: task_ok_def)
  then have "task_ok (calls_of i (sent s)) (Some (Resolve_backoff (150 * (a + 1)) pid (a + 1) k))"
    using assms(3) by (simp add: task_ok_def)
  moreover have "i < next_task s"
    using assms(1,2) unfolding retry_inv_def by (metis not_le option.distinct(1))
  ultimately show ?thesis using assms(1) unfolding retry_inv_def by auto
qed

lemma retry_inv_backoff_over:
  assumes "retry_inv s" and "tasks s i = Some (Resolve_backoff d pid a k)"
  shows "retry_inv (apiResolve g pid a k i s)"
proof -
  have "task_ok (calls_of i (sent s)) (tasks s i)" using assms(1) unfolding retry_inv_def by blast
  then have a: "calls_of i (sent s) = a" "a \<le> 2" using assms(2) by (simp_all add: task_ok_def)
  moreover have "i < next_task s"
    using assms(1,2) unfolding retry_inv_def by (metis not_le option.distinct(1))
  ultimately show ?thesis
    using assms(1) unfolding retry_inv_def apiResolve_def by (auto simp: task_ok_def)
qed

lemma same_net_timer_fields [simp]:
  "same_net s (s\<lparr>intervals := x\<rparr>)" "same_net s (s\<lparr>rowTimers := y\<rparr>)"
  "same_net s (s\<lparr>intervals := x, rowTimers := y\<rparr>)"
  by (simp_all add: same_net_def)

lemma retry_inv_cong: "same_net s s' \<Longrightarrow> retry_inv s' = retry_inv s"
  by (simp add: same_net_def retry_inv_def)

lemmas retry_inv_frame [simp] =
  retry_inv_cong [OF on_row_same(2)] retry_inv_cong [OF hide_mini_same(2)]
  retry_inv_cong [OF finalizeResolve_same(2)] retry_inv_cong [OF finalizeArchive_same(2)]
  retry_inv_cong [OF refreshFromPayload_same(2)] retry_inv_cong [OF stopTimerForRow_same_net]
  retry_inv_cong [OF startMiniCountdown_same_net] retry_inv_cong [OF resume_same_net]
  retry_inv_cong [OF same_net_timer_fields(1)] retry_inv_cong [OF same_net_timer_fields(2)]
  retry_inv_cong [OF same_net_timer_fields(3)]

lemma retry_inv_run_onDone: "retry_inv s \<Longrightarrow> retry_inv (run_onDone g od s)"
  by (simp add: run_onDone_def retry_inv_apiResolve_call split: on_done.splits)

lemma retry_inv_interval_tick: "retry_inv s \<Longrightarrow> retry_inv (interval_tick g h now s)"
  by (simp add: interval_tick_def Let_def retry_inv_run_onDone split: option.splits)

lemma retry_inv_resolve_settles:
  assumes "retry_inv s" and "tasks s i = Some (Resolve_fetch pid a k)"
  shows "retry_inv (resolve_settles i pid a k resp now s)"
  using assms retry_inv_backoff [OF assms]
  by (simp add: resolve_settles_def Let_def retry_inv_clear split: response.splits)

lemma retry_inv_remaining_settles:
  "retry_inv s \<Longrightarrow> retry_inv (remaining_settles g i rw k pid resp now s)"
  by (simp add: remaining_settles_def Let_def retry_inv_clear retry_inv_apiResolve_call
      split: response.splits option.splits)

lemma retry_inv_archive_settles: "retry_inv s \<Longrightarrow> retry_inv (archive_settles i rw resp s)"
  by (simp add: archive_settles_def Let_def retry_inv_clear split: response.splits option.splits)

lemma retry_inv_unarchive_settles: "retry_inv s \<Longrightarrow> retry_inv (unarchive_settles i resp s)"
  by (simp add: unarchive_settles_def Let_def retry_inv_clear split: response.splits option.splits)

lemma retry_inv_step:
  assumes "retry_inv s"
  shows "retry_inv (step g e s)"
proof (cases e)
  case (Click_resolve b)
  then show ?thesis
    using assms by (simp add: step_def handleResolve_def Let_def retry_inv_apiRemaining
        split: option.splits)
next
  case (Click_archive b)
  then show ?thesis
    using assms by (simp add: step_def handleArchive_def Let_def retry_inv_apiArchive
        split: option.splits)
next
  case (Click_unarchive pid)
  then show ?thesis
    using assms by (simp add: step_def handleUnarchive_def retry_inv_apiUnarchive)
next
  case (Response i resp now)
  then show ?thesis
    using assms
    by (simp add: step_def retry_inv_remaining_settles retry_inv_resolve_settles
        retry_inv_archive_settles retry_inv_unarchive_settles split: option.splits task.splits)
next
  case (Backoff_over i)
  then show ?thesis
    using assms by (simp add: step_def retry_inv_backoff_over split: option.splits task.splits)
next
  case (Interval h now)
  then show ?thesis using assms by (simp add: step_def retry_inv_interval_tick)
qed

lemma reachable_retry_inv: "reachable g s \<Longrightarrow> retry_inv s"
proof (induction rule: reachable.induct)
  case (start s)
  then show ?case by (simp add: page_loaded_def retry_inv_def task_ok_def)
next
  case (step s e)
  then show ?case by (simp add: retry_inv_step)
qed

lemma keys_of_simps [simp]:
  "keys_of [] = []"
  "keys_of (rs @ [Post_resolve j pid key a]) = keys_of rs @ [key]"
  "keys_of (rs @ [Get_remaining pid]) = keys_of rs"
  "keys_of (rs @ [Post_archive pid]) = keys_of rs"
  "keys_of (rs @ [Post_unarchive pid]) = keys_of rs"
  by (simp_all add: keys_of_def)

lemma keys_inv_cong: "same_net s s' \<Longrightarrow> keys_inv g s' = keys_inv g s"
  by (simp add: same_net_def keys_inv_def)

lemmas keys_inv_frame [simp] =
  keys_inv_cong [OF on_row_same(2)] keys_inv_cong [OF hide_mini_same(2)]
  keys_inv_cong [OF finalizeResolve_same(2)] keys_inv_cong [OF finalizeArchive_same(2)]
  keys_inv_cong [OF refreshFromPayload_same(2)] keys_inv_cong [OF stopTimerForRow_same_net]
  keys_inv_cong [OF startMiniCountdown_same_net] keys_inv_cong [OF resume_same_net]
  keys_inv_cong [OF same_net_timer_fields(1)] keys_inv_cong [OF same_net_timer_fields(2)]
  keys_inv_cong [OF same_net_timer_fields(3)]

lemma keys_inv_tasks [simp]: "keys_inv g (s\<lparr>tasks := t\<rparr>) = keys_inv g s"
  by (simp add: keys_inv_def)






lemma startMiniCountdown_registers:
  "intervals (startMiniCountdown rw k n od now s) (next_handle s) =
     Some \<lparr>cd_row = rw, cd_rowId = k, cd_total = max 0 n, cd_start = now, cd_every = 300, cd_onDone = od\<rparr> \<and>
   rowTimers (startMiniCountdown rw k n od now s) k = Some (next_handle s) \<and>
   next_handle (startMiniCountdown rw k n od now s) = Suc (next_handle s)"
  by (simp add: startMiniCountdown_def Let_def on_row_def stopTimerForRow_def split: option.splits)

lemma stopTimerForRow_cancels:
  assumes "timers_inv s" and "rowTimers s k = Some h0"
  shows "intervals (stopTimerForRow k s) h0 = None"
proof -
  have "0 < h0" using assms by (rule timers_inv_positive)
  then show ?thesis using assms(2) by (simp add: stopTimerForRow_def)
qed

lemma startMiniCountdown_cancels:
  assumes "timers_inv s" and "rowTimers s k = Some h0"
  shows "intervals (startMiniCountdown rw k n od now s) h0 = None"
proof -
  have pos: "0 < h0" using assms by (rule timers_inv_positive)
  obtain c where "intervals s h0 = Some c" using assms unfolding timers_inv_def by blast
  then have "h0 < next_handle s" using assms(1) unfolding timers_inv_def by blast
  then show ?thesis
    using assms(2) pos
    by (simp add: startMiniCountdown_def Let_def on_row_def stopTimerForRow_def)
qed

lemma run_onDone_timers [simp]:
  "intervals (run_onDone g od s) = intervals s" "rowTimers (run_onDone g od s) = rowTimers s"
  using run_onDone_same_timers [of s g od] by (simp_all add: same_timers_def)

lemma interval_tick_completes:
  assumes "intervals s h = Some c" and "seconds_left (cd_total c) (cd_start c) now \<le> 0"
  shows "intervals (interval_tick g h now s) h = None \<and>
         rowTimers (interval_tick g h now s) (cd_rowId c) = None"
  using assms
  by (simp add: interval_tick_def Let_def on_row_def split: option.splits)

text \<open>
  Claim C7. On every reachable page each entry of the row-timer map is the handle of a
  running timer started for that key, and each running timer is the entry of its own key:
  two running timers never belong to the same key. \<open>startMiniCountdown\<close> leaves the
  key with the new handle and the timer that was registered before cleared;
  \<open>stopTimerForRow\<close> leaves the key without an entry and its timer cleared; a timer
  that completes is cleared and its key's entry removed.
\<close>

theorem row_timers_one_per_key:
  assumes "reachable g s"
  shows "(\<forall>k h. rowTimers s k = Some h \<longrightarrow> (\<exists>c. intervals s h = Some c \<and> cd_rowId c = k)) \<and>
         (\<forall>h c. intervals s h = Some c \<longrightarrow> rowTimers s (cd_rowId c) = Some h) \<and>
         (\<forall>h h' c c'. intervals s h = Some c \<and> intervals s h' = Some c' \<and>
            cd_rowId c = cd_rowId c' \<longrightarrow> h = h') \<and>
         rowTimers (startMiniCountdown rw k n od now s) k = Some (next_handle s) \<and>
         (\<forall>h0. rowTimers s k = Some h0 \<longrightarrow>
            h0 \<noteq> next_handle s \<and> intervals (startMiniCountdown rw k n od now s) h0 = None) \<and>
         rowTimers (stopTimerForRow k s) k = None \<and>
         (\<forall>h0. rowTimers s k = Some h0 \<longrightarrow> intervals (stopTimerForRow k s) h0 = None) \<and>
         (\<forall>h c. intervals s h = Some c \<and> seconds_left (cd_total c) (cd_start c) t \<le> 0 \<longrightarrow>
            intervals (interval_tick g h t s) h = None \<and>
            rowTimers (interval_tick g h t s) (cd_rowId c) = None)"
proof -
  have inv: "timers_inv s" using assms by (rule reachable_timers_inv)
  have registered: "\<forall>k h. rowTimers s k = Some h \<longrightarrow>
      (\<exists>c. intervals s h = Some c \<and> cd_rowId c = k)"
    using inv unfolding timers_inv_def by blast
  have owner: "\<forall>h c. intervals s h = Some c \<longrightarrow> rowTimers s (cd_rowId c) = Some h"
    using inv unfolding timers_inv_def by blast
  have one: "\<forall>h h' c c'. intervals s h = Some c \<and> intervals s h' = Some c' \<and>
      cd_rowId c = cd_rowId c' \<longrightarrow> h = h'"
  proof (intro allI impI)
    fix h h' c c'
    assume a: "intervals s h = Some c \<and> intervals s h' = Some c' \<and> cd_rowId c = cd_rowId c'"
    then have "rowTimers s (cd_rowId c) = Some h" using owner by blast
    moreover have "rowTimers s (cd_rowId c') = Some h'" using a owner by blast
    ultimately show "h = h'" using a by simp
  qed
  have older: "h0 \<noteq> next_handle s" if entry: "rowTimers s k = Some h0" for h0
  proof -
    obtain c where "intervals s h0 = Some c" using registered entry by blast
    then have "h0 < next_handle s" using inv unfolding timers_inv_def by blast
    then show ?thesis by simp
  qed
  show ?thesis
    using registered owner one older startMiniCountdown_registers [of rw k n od now s]
      startMiniCountdown_cancels [OF inv, of k _ rw n od now]
      stopTimerForRow_stopped [OF inv, of k] stopTimerForRow_cancels [OF inv, of k]
      interval_tick_completes [of s _ _ t g]
    by (intro conjI) blast+
qed

lemmas resolve_example_defs =
  counting_def waiting_trace_def retry_trace_def run_def step_def rpage_loaded_def resolve_click_def
  too_early_5_def resolved_ok_def empty_payload_def discovered_row_def uuid_source_def
  handleResolve_def stopTimerForRow_def apiRemaining_def remaining_settles_def
  apiResolve_call_def apiResolve_def resolve_settles_def resume_def too_early_def
  startMiniCountdown_def on_row_def with_mini_def hide_mini_def finalizeResolve_def
  interval_tick_def seconds_left_def run_onDone_def idempotencyKey_def http_ok_def Let_def
  js_round_def floor_eq_iff updateCountsWallet_def updateWallet_def formatReward_def
  toFixed2_def dash_example_def

lemma reachable_run: "reachable g s \<Longrightarrow> reachable g (run g es s)"
  unfolding run_def by (induction es arbitrary: s) (simp_all add: reachable.step)

lemma counting_reachable: "reachable uuid_source counting"
  unfolding counting_def
  by (rule reachable_run, rule reachable.start) (simp add: page_loaded_def rpage_loaded_def)

lemma counting_facts:
  "rowTimers counting ''7'' = Some 1" "next_handle counting = 2" "next_task counting = 2"
  "key_calls counting = 1"
  "intervals counting 1 = Some \<lparr>cd_row = 0, cd_rowId = ''7'', cd_total = 5, cd_start = 2000,
                                  cd_every = 300, cd_onDone = Some (Resolve_then_p2 ''7'' 0)\<rparr>"
  "sent counting = [Get_remaining ''7'', Post_resolve 1 ''7'' ''uuid-0'' 0]"
  "rows counting 0 = discovered_row\<lparr>row_actions := Some (Controls
      \<lparr>mini_hidden = False, mini_fill = 0, mini_txt = Txt_countdown 5\<rparr>)\<rparr>"
  by (simp add: resolve_example_defs, code_simp?)+

theorem row_timers_one_per_key_witness:
  "rowTimers counting ''7'' = Some 1 \<and>
   rowTimers (startMiniCountdown 0 ''7'' 3 None 9000 counting) ''7'' = Some 2 \<and>
   intervals (startMiniCountdown 0 ''7'' 3 None 9000 counting) 1 = None \<and>
   rowTimers (stopTimerForRow ''7'' counting) ''7'' = None \<and>
   intervals (stopTimerForRow ''7'' counting) 1 = None \<and>
   intervals (interval_tick uuid_source 1 7000 counting) 1 = None \<and>
   rowTimers (interval_tick uuid_source 1 7000 counting) ''7'' = None"
proof -
  note inst = row_timers_one_per_key [OF counting_reachable,
      where rw = 0 and k = "''7''" and n = 3 and od = None and now = 9000 and t = 7000]
  have over: "seconds_left 5 2000 7000 \<le> 0" by (simp add: seconds_left_def)
  have "intervals (interval_tick uuid_source 1 7000 counting) 1 = None \<and>
        rowTimers (interval_tick uuid_source 1 7000 counting) ''7'' = None"
    using inst counting_facts(5) over by fastforce
  then show ?thesis
    using inst counting_facts(1,2) by simp
qed











lemma hide_mini_only_hides:
  "same_net u (hide_mini rw u) \<and> same_timers u (hide_mini rw u) \<and>
   r_dash (hide_mini rw u) = r_dash u \<and>
   td_status (rows (hide_mini rw u) rw) = td_status (rows u rw) \<and>
   (\<forall>m. row_actions (rows u rw) = Some (Controls m) \<longrightarrow>
      row_actions (rows (hide_mini rw u) rw) = Some (Controls (m\<lparr>mini_hidden := True\<rparr>)))"
  by (simp add: hide_mini_def on_row_def with_mini_def same_net_def same_timers_def
      split: option.splits actions.splits)



lemma run_onDone_p2:
  "sent (run_onDone g (Resolve_then_p2 pid rw) u) =
     sent u @ [Post_resolve (next_task u) pid (idempotencyKey g (key_calls u)) 0] \<and>
   tasks (run_onDone g (Resolve_then_p2 pid rw) u) =
     (tasks u)(next_task u \<mapsto> Resolve_fetch pid 0 (P2_handler rw))"
  by (simp add: run_onDone_def apiResolve_call_def apiResolve_def)













lemma task_ok_bound: "task_ok n t \<Longrightarrow> n \<le> 3"
  by (auto simp: task_ok_def split: option.splits task.splits)

lemma conflict_step:
  assumes "tasks s i = Some (Resolve_fetch pid a k)" and "st = 409 \<or> st = 423" and "a < 2"
  shows "step g (Response i (Http st b) now) s =
           s\<lparr>tasks := (tasks s)(i \<mapsto> Resolve_backoff (150 * (a + 1)) pid (a + 1) k)\<rparr>"
proof -
  have "\<not> http_ok st" using assms(2) by (auto simp: http_ok_def)
  then show ?thesis
    using assms by (simp add: step_def resolve_settles_def Let_def)
qed

lemma failure_step:
  assumes "tasks s i = Some (Resolve_fetch pid a k)" and "\<not> http_ok st"
    and "\<not> ((st = 409 \<or> st = 423) \<and> a < 2)"
  shows "step g (Response i (Http st b) now) s =
           resume k (Some (empty_payload\<lparr>error := ''http_'' @ decimal st\<rparr>)) now
             (s\<lparr>tasks := (tasks s)(i := None)\<rparr>)"
proof -
  have spent: "((st = 409 \<or> st = 423) \<and> a < 2) = False" using assms(3) by simp
  show ?thesis
    using assms(1,2) by (simp add: step_def resolve_settles_def Let_def spent)
qed

lemma backoff_step:
  assumes "tasks s i = Some (Resolve_backoff d pid a k)"
  shows "step g (Backoff_over i) s = apiResolve g pid a k i s \<and>
         sent (step g (Backoff_over i) s) =
           sent s @ [Post_resolve i pid (idempotencyKey g (key_calls s)) a]"
  using assms by (simp add: step_def apiResolve_def)

text \<open>
  Claim C3. On every reachable page no \<^verbatim>\<open>apiResolve\<close> promise has sent more than three
  requests and no resolve request has an attempt number above 2. A 409 or 423 response to
  attempt \<open>a < 2\<close> only puts the promise into a back-off of \<open>150 * (a + 1)\<close> ms (150 ms
  before the first retry, 300 ms before the second); when a back-off is over, exactly one
  request with the next attempt number is sent. A response that is not OK and is not
  retried (another status, or 409 or 423 to attempt 2) fulfils the promise with
  \<^verbatim>\<open>{ok: false, error: 'http_' + status}\<close>: the handler receives a value, not a
  rejection.
\<close>

theorem resolve_conflicts_retried_at_most_twice:
  assumes "reachable g s"
  shows "(\<forall>i. calls_of i (sent s) \<le> 3) \<and>
         (\<forall>a \<in> set (attempts_of (sent s)). a \<le> 2) \<and>
         (\<forall>i pid a k st b now.
            tasks s i = Some (Resolve_fetch pid a k) \<and> (st = 409 \<or> st = 423) \<and> a < 2 \<longrightarrow>
              step g (Response i (Http st b) now) s =
                s\<lparr>tasks := (tasks s)(i \<mapsto> Resolve_backoff (150 * (a + 1)) pid (a + 1) k)\<rparr>) \<and>
         (\<forall>i d pid a k.
            tasks s i = Some (Resolve_backoff d pid a k) \<longrightarrow>
              d = 150 * a \<and> 1 \<le> a \<and> a \<le> 2 \<and>
              step g (Backoff_over i) s = apiResolve g pid a k i s \<and>
              sent (step g (Backoff_over i) s) =
                sent s @ [Post_resolve i pid (idempotencyKey g (key_calls s)) a]) \<and>
         (\<forall>i pid a k st b now.
            tasks s i = Some (Resolve_fetch pid a k) \<and> \<not> http_ok st \<and>
            \<not> ((st = 409 \<or> st = 423) \<and> a < 2) \<longrightarrow>
              step g (Response i (Http st b) now) s =
                resume k (Some (empty_payload\<lparr>error := ''http_'' @ decimal st\<rparr>)) now
                  (s\<lparr>tasks := (tasks s)(i := None)\<rparr>)) \<and>
         (\<forall>st. \<not> ok (empty_payload\<lparr>error := ''http_'' @ decimal st\<rparr>) \<and>
               error (empty_payload\<lparr>error := ''http_'' @ decimal st\<rparr>) = ''http_'' @ decimal st)"
proof -
  have inv: "retry_inv s" using assms by (rule reachable_retry_inv)
  have count: "\<forall>i. calls_of i (sent s) \<le> 3"
    using inv task_ok_bound unfolding retry_inv_def by blast
  have attempts: "\<forall>a \<in> set (attempts_of (sent s)). a \<le> 2"
    using inv unfolding retry_inv_def by blast
  have delay: "d = 150 * a \<and> 1 \<le> a \<and> a \<le> 2"
    if waiting: "tasks s i = Some (Resolve_backoff d pid a k)" for i d pid a k
  proof -
    have "task_ok (calls_of i (sent s)) (tasks s i)" using inv unfolding retry_inv_def by blast
    then show ?thesis using waiting by (simp add: task_ok_def)
  qed
  have unthrown: "\<forall>st. \<not> ok (empty_payload\<lparr>error := ''http_'' @ decimal st\<rparr>) \<and>
      error (empty_payload\<lparr>error := ''http_'' @ decimal st\<rparr>) = ''http_'' @ decimal st"
    by (simp add: empty_payload_def)
  have retried: "\<forall>i pid a k st b now.
      tasks s i = Some (Resolve_fetch pid a k) \<and> (st = 409 \<or> st = 423) \<and> a < 2 \<longrightarrow>
        step g (Response i (Http st b) now) s =
          s\<lparr>tasks := (tasks s)(i \<mapsto> Resolve_backoff (150 * (a + 1)) pid (a + 1) k)\<rparr>"
  proof (intro allI impI)
    fix i pid a k and st :: nat and b now
    assume "tasks s i = Some (Resolve_fetch pid a k) \<and> (st = 409 \<or> st = 423) \<and> a < 2"
    then have "tasks s i = Some (Resolve_fetch pid a k)" "st = 409 \<or> st = 423" "a < 2"
      by simp_all
    then show "step g (Response i (Http st b) now) s =
        s\<lparr>tasks := (tasks s)(i \<mapsto> Resolve_backoff (150 * (a + 1)) pid (a + 1) k)\<rparr>"
      by (rule conflict_step)
  qed
  have waited: "\<forall>i d pid a k.
      tasks s i = Some (Resolve_backoff d pid a k) \<longrightarrow>
        d = 150 * a \<and> 1 \<le> a \<and> a \<le> 2 \<and>
        step g (Backoff_over i) s = apiResolve g pid a k i s \<and>
        sent (step g (Backoff_over i) s) =
          sent s @ [Post_resolve i pid (idempotencyKey g (key_calls s)) a]"
  proof (intro allI impI)
    fix i d pid a k
    assume waiting: "tasks s i = Some (Resolve_backoff d pid a k)"
    show "d = 150 * a \<and> 1 \<le> a \<and> a \<le> 2 \<and>
        step g (Backoff_over i) s = apiResolve g pid a k i s \<and>
        sent (step g (Backoff_over i) s) =
          sent s @ [Post_resolve i pid (idempotencyKey g (key_calls s)) a]"
      using delay [OF waiting] backoff_step [OF waiting, of g] by blast
  qed
  have failed: "\<forall>i pid a k st b now.
      tasks s i = Some (Resolve_fetch pid a k) \<and> \<not> http_ok st \<and>
      \<not> ((st = 409 \<or> st = 423) \<and> a < 2) \<longrightarrow>
        step g (Response i (Http st b) now) s =
          resume k (Some (empty_payload\<lparr>error := ''http_'' @ decimal st\<rparr>)) now
            (s\<lparr>tasks := (tasks s)(i := None)\<rparr>)"
  proof (intro allI impI)
    fix i pid a k and st :: nat and b now
    assume "tasks s i = Some (Resolve_fetch pid a k) \<and> \<not> http_ok st \<and>
      \<not> ((st = 409 \<or> st = 423) \<and> a < 2)"
    then have "tasks s i = Some (Resolve_fetch pid a k)" "\<not> http_ok st"
      "\<not> ((st = 409 \<or> st = 423) \<and> a < 2)"
      by simp_all
    then show "step g (Response i (Http st b) now) s =
        resume k (Some (empty_payload\<lparr>error := ''http_'' @ decimal st\<rparr>)) now
          (s\<lparr>tasks := (tasks s)(i := None)\<rparr>)"
      by (rule failure_step)
  qed
  show ?thesis
    by (intro conjI count attempts retried waited failed unthrown)
qed

lemma loaded_reachable: "reachable g rpage_loaded"
  by (rule reachable.start) (simp add: page_loaded_def rpage_loaded_def)

lemma retry_pages_reachable:
  "reachable uuid_source retrying" "reachable uuid_source last_try"
  "reachable uuid_source exhausted"
  unfolding retrying_def last_try_def exhausted_def
  by (rule reachable_run [OF loaded_reachable])+

lemma retry_pages_facts:
  "tasks retrying 1 = Some (Resolve_fetch ''7'' 0 (Payload_handler 0 ''7'' ''7''))"
  "tasks last_try 1 = Some (Resolve_fetch ''7'' 2 (Payload_handler 0 ''7'' ''7''))"
  "sent last_try =
     [Get_remaining ''7'', Post_resolve 1 ''7'' ''uuid-0'' 0, Post_resolve 1 ''7'' ''uuid-1'' 1,
      Post_resolve 1 ''7'' ''uuid-2'' 2]"
  "key_calls last_try = 3"
  by (simp add: retrying_def last_try_def resolve_example_defs, code_simp?)+

lemma exhausted_after_last_try:
  "exhausted = step uuid_source (Response 1 (Http 409 None) 1900) last_try"
  by (simp add: exhausted_def last_try_def retry_trace_def run_def)

lemma resume_failure_value:
  "resume (Payload_handler rw k pid) (Some (empty_payload\<lparr>error := e\<rparr>)) t u = hide_mini rw u"
  "resume (P2_handler rw) (Some (empty_payload\<lparr>error := e\<rparr>)) t u = hide_mini rw u"
  by (simp_all add: resume_def too_early_def empty_payload_def)

lemma exhausted_hidden:
  "exhausted = hide_mini 0 (last_try\<lparr>tasks := (tasks last_try)(1 := None)\<rparr>)"
proof -
  have "\<not> http_ok 409" "\<not> ((409 = (409::nat) \<or> 409 = (423::nat)) \<and> (2::nat) < 2)"
    by (simp_all add: http_ok_def)
  then show ?thesis
    using failure_step [OF retry_pages_facts(2), of 409 uuid_source None 1900]
    by (simp add: exhausted_after_last_try resume_failure_value)
qed

lemma exhausted_facts:
  "sent exhausted = sent last_try" "key_calls exhausted = 3"
  using hide_mini_only_hides [of "last_try\<lparr>tasks := (tasks last_try)(1 := None)\<rparr>" 0]
  by (simp_all add: exhausted_hidden same_net_def retry_pages_facts(4))

theorem resolve_conflicts_retried_at_most_twice_witness:
  "step uuid_source (Response 1 (Http 409 None) 1100) retrying =
     retrying\<lparr>tasks := (tasks retrying)(1 \<mapsto>
       Resolve_backoff 150 ''7'' 1 (Payload_handler 0 ''7'' ''7''))\<rparr> \<and>
   step uuid_source (Response 1 (Http 409 None) 1900) last_try =
     hide_mini 0 (last_try\<lparr>tasks := (tasks last_try)(1 := None)\<rparr>) \<and>
   calls_of 1 (sent exhausted) = 3 \<and> attempts_of (sent exhausted) = [0, 1, 2]"
proof -
  note first = resolve_conflicts_retried_at_most_twice [OF retry_pages_reachable(1)]
  note last = resolve_conflicts_retried_at_most_twice [OF retry_pages_reachable(2)]
  have retried: "step uuid_source (Response i (Http st b) now) retrying =
      retrying\<lparr>tasks := (tasks retrying)(i \<mapsto> Resolve_backoff (150 * (a + 1)) pid (a + 1) k)\<rparr>"
    if "tasks retrying i = Some (Resolve_fetch pid a k)" and "st = 409 \<or> st = 423" and "a < 2"
    for i pid a k st b now
    using first that by blast
  have "step uuid_source (Response 1 (Http 409 None) 1100) retrying =
      retrying\<lparr>tasks := (tasks retrying)(1 \<mapsto>
        Resolve_backoff (150 * (0 + 1)) ''7'' (0 + 1) (Payload_handler 0 ''7'' ''7''))\<rparr>"
    by (rule retried [OF retry_pages_facts(1)]) simp_all
  then have backoff: "step uuid_source (Response 1 (Http 409 None) 1100) retrying =
      retrying\<lparr>tasks := (tasks retrying)(1 \<mapsto>
        Resolve_backoff 150 ''7'' 1 (Payload_handler 0 ''7'' ''7''))\<rparr>"
    by simp
  have failed: "step uuid_source (Response i (Http st b) now) last_try =
      resume k (Some (empty_payload\<lparr>error := ''http_'' @ decimal st\<rparr>)) now
        (last_try\<lparr>tasks := (tasks last_try)(i := None)\<rparr>)"
    if "tasks last_try i = Some (Resolve_fetch pid a k)" and "\<not> http_ok st"
      and "\<not> ((st = 409 \<or> st = 423) \<and> a < 2)"
    for i pid a k st b now
    using last that by blast
  have "step uuid_source (Response 1 (Http 409 None) 1900) last_try =
      resume (Payload_handler 0 ''7'' ''7'')
        (Some (empty_payload\<lparr>error := ''http_'' @ decimal 409\<rparr>)) 1900
        (last_try\<lparr>tasks := (tasks last_try)(1 := None)\<rparr>)"
    by (rule failed [OF retry_pages_facts(2)]) (simp_all add: http_ok_def)
  then have failure: "step uuid_source (Response 1 (Http 409 None) 1900) last_try =
      hide_mini 0 (last_try\<lparr>tasks := (tasks last_try)(1 := None)\<rparr>)"
    by (simp add: resume_failure_value)
  have "calls_of 1 (sent exhausted) = 3" "attempts_of (sent exhausted) = [0, 1, 2]"
    by (simp_all add: exhausted_facts retry_pages_facts(3) calls_of_def attempts_of_def)
  then show ?thesis using backoff failure by simp
qed




end
